theory Spec2Isabelle
  imports Main
begin

section \<open>Conventions of the embedding\<close>

text \<open>
  The repository holds several independent implementations of the same two SQLite
  extensions (an XLSX importer and an XLSX exporter), all in C. A C string is modelled
  as the list of its bytes before the terminating NUL (\<open>string\<close>); a \<open>char *\<close> that may
  be \<open>NULL\<close> is a \<open>string option\<close>. A growable array (\<open>items\<close>, \<open>count\<close>, \<open>cap\<close>) is
  the list of its first \<open>count\<close> elements: the capacity bookkeeping only decides when
  \<open>realloc\<close> is called. Memory allocation is taken to succeed, so the branches that only
  run when \<open>malloc\<close> or \<open>realloc\<close> returns \<open>NULL\<close> are not part of the model.
\<close>

text \<open>
  The XML parser (expat), the ZIP reader (SQLite's zipfile) and the SQL engine are not
  code of this repository. The model takes what they deliver as parameters: the
  callbacks expat makes for a buffer are a list of \<open>xml_event\<close>s, and an archive is a
  function from entry names to their bytes.
\<close>

section \<open>The C library functions the code calls\<close>

definition isdigit_c :: "char \<Rightarrow> bool" where
  "isdigit_c c = (48 \<le> (of_char c :: nat) \<and> (of_char c :: nat) \<le> 57)"

definition isupper_c :: "char \<Rightarrow> bool" where
  "isupper_c c = (65 \<le> (of_char c :: nat) \<and> (of_char c :: nat) \<le> 90)"

definition islower_c :: "char \<Rightarrow> bool" where
  "islower_c c = (97 \<le> (of_char c :: nat) \<and> (of_char c :: nat) \<le> 122)"

definition isalpha_c :: "char \<Rightarrow> bool" where
  "isalpha_c c = (isupper_c c \<or> islower_c c)"

definition isspace_c :: "char \<Rightarrow> bool" where
  "isspace_c c = ((of_char c :: nat) = 32 \<or> (9 \<le> (of_char c :: nat) \<and> (of_char c :: nat) \<le> 13))"

definition toupper_c :: "char \<Rightarrow> int" where
  "toupper_c c = (if islower_c c then of_char c - 32 else of_char c)"

text \<open>
  A C \<open>int\<close> is 32 bits wide. Where the code's arithmetic can leave that range the
  model wraps it around in two's complement, as the compiled code does.
\<close>

definition int32_wrap :: "int \<Rightarrow> int" where
  "int32_wrap x = (x + 2147483648) mod 4294967296 - 2147483648"

text \<open>
  \<open>atoi\<close> as the C library of the test platform computes it (\<open>(int) strtol(s, NULL, 10)\<close>):
  leading white space, an optional sign, then decimal digits; the value saturates at the
  range of a 64-bit \<open>long\<close> and is then cut to 32 bits.
\<close>

definition digits_value :: "string \<Rightarrow> int" where
  "digits_value ds = foldl (\<lambda>a c. a * 10 + (of_char c - 48)) 0 ds"

definition atoi :: "string \<Rightarrow> int" where
  "atoi s =
     (let s1 = dropWhile isspace_c s;
          neg = (case s1 of [] \<Rightarrow> False | c # _ \<Rightarrow> c = CHR ''-'');
          s2 = (case s1 of [] \<Rightarrow> [] | c # r \<Rightarrow> if c = CHR ''-'' \<or> c = CHR ''+'' then r else s1);
          v = digits_value (takeWhile isdigit_c s2);
          sv = (if neg then - v else v)
      in int32_wrap (max (- 9223372036854775808) (min 9223372036854775807 sv)))"

text \<open>\<open>printf\<close>'s \<open>%d\<close> and \<open>%lu\<close>: the decimal digits, with a minus sign when negative.\<close>

function dec_nat :: "nat \<Rightarrow> string" where
  "dec_nat n = (if n < 10 then [char_of (48 + n)] else dec_nat (n div 10) @ [char_of (48 + n mod 10)])"
  by pat_completeness auto
termination
  by (relation "measure id") auto

declare dec_nat.simps [simp del]

definition dec_int :: "int \<Rightarrow> string" where
  "dec_int i = (if i < 0 then CHR ''-'' # dec_nat (nat (- i)) else dec_nat (nat i))"

section \<open>Column letters\<close>

text \<open>
  \<open>col_to_num\<close> (opus/xlsximport.c) decodes the leading letters of a cell reference to
  a 1-based column number; the loop stops at the first byte that is not a letter (the
  terminating NUL is one). \<open>col_to_letters\<close> (copilot/xlsxexport.c) encodes a 0-based
  column index: the loop fills \<open>buf\<close> with the letters from the least significant one
  (at most 15 of them) and the result is \<open>buf\<close> reversed, cut to \<open>outsz - 1\<close> bytes. The
  exporter calls it with \<open>outsz = 8\<close>. For \<open>v > 0\<close> C's \<open>%\<close> and \<open>/\<close> on \<open>v - 1\<close>
  agree with \<open>mod\<close> and \<open>div\<close>.
\<close>

fun col_to_num_loop :: "int \<Rightarrow> string \<Rightarrow> int" where
  "col_to_num_loop num [] = num"
| "col_to_num_loop num (c # cs) =
     (if isalpha_c c then col_to_num_loop (int32_wrap (num * 26 + (toupper_c c - 65 + 1))) cs
      else num)"

definition col_to_num :: "string \<Rightarrow> int" where
  "col_to_num col = col_to_num_loop 0 col"

function col_to_letters_loop :: "int \<Rightarrow> nat \<Rightarrow> string" where
  "col_to_letters_loop v pos =
     (if v > 0 \<and> pos < 15
      then char_of (65 + (v - 1) mod 26) # col_to_letters_loop ((v - 1) div 26) (pos + 1)
      else [])"
  by pat_completeness auto
termination
  by (relation "measure (\<lambda>(v, pos). nat v)") auto

declare col_to_letters_loop.simps [simp del]

definition col_to_letters :: "int \<Rightarrow> nat \<Rightarrow> string" where
  "col_to_letters col outsz =
     take (outsz - 1) (rev (col_to_letters_loop (int32_wrap (col + 1)) 0))"

text \<open>
  \<open>colname_to_index\<close> (the importer of unnamed/part_001) decodes to a 0-based index, so
  a string with no leading letter gives \<open>-1\<close>.
\<close>

fun colname_to_index_loop :: "int \<Rightarrow> string \<Rightarrow> int" where
  "colname_to_index_loop idx [] = idx"
| "colname_to_index_loop idx (c # cs) =
     (if isupper_c c then colname_to_index_loop (int32_wrap (idx * 26 + (of_char c - 65 + 1))) cs
      else if islower_c c then colname_to_index_loop (int32_wrap (idx * 26 + (of_char c - 97 + 1))) cs
      else idx)"

definition colname_to_index :: "string \<Rightarrow> int" where
  "colname_to_index col = int32_wrap (colname_to_index_loop 0 col - 1)"

section \<open>Import: the parsers of unnamed/part_001\<close>

text \<open>
  What expat calls back: an element's start with its attributes (name and value, in
  document order), an element's end, and a run of character data.
\<close>

datatype xml_event =
    StartElement string "(string \<times> string) list"
  | EndElement string
  | CharData string

subsection \<open>xl/sharedStrings.xml\<close>







subsection \<open>xl/workbook.xml\<close>





subsection \<open>xl/worksheets/sheetN.xml\<close>

text \<open>
  \<open>sheet_parser_ctx\<close>: the flags are C \<open>int\<close>s used as booleans. \<open>rowbuf\<close> is the array
  of \<open>rowcap\<close> pointers (\<open>rowcap\<close> is its length, and \<open>rowbuf\<close> is \<open>NULL\<close> exactly when
  that is 0); \<open>NULL\<close> entries are \<open>None\<close>. \<open>cur_cell_ref\<close> and \<open>cur_cell_type\<close> are
  filled by \<open>strncpy\<close> with room for 63 and 31 bytes. \<open>emitted\<close> is the \<open>sheet_rows\<close>
  collector that \<open>emit_row\<close> (always \<open>sheet_rows_emit\<close>) appends to.
\<close>

record sheet_row =
  rownum :: int
  cols :: "string option list"

record sheet_parser_ctx =
  shared :: "string list"
  in_v :: bool
  in_t :: bool
  in_is :: bool
  in_c :: bool
  cur_cell_ref :: string
  cur_cell_type :: string
  cur_text :: string
  current_row :: int
  rowbuf :: "string option list"
  maxcol :: nat
  emitted :: "sheet_row list"

text \<open>
  \<open>ensure_rowcap\<close>: the capacity starts at 16 and doubles until it reaches \<open>cols\<close>; the
  new entries are \<open>NULL\<close>. The capacity in the loop is never 0, the test \<open>0 < newcap\<close>
  is there for the function to be total.
\<close>

function rowcap_loop :: "nat \<Rightarrow> nat \<Rightarrow> nat" where
  "rowcap_loop newcap n =
     (if newcap < n \<and> 0 < newcap then rowcap_loop (newcap * 2) n else newcap)"
  by pat_completeness auto
termination
  by (relation "measure (\<lambda>(newcap, n). n - newcap)") auto

declare rowcap_loop.simps [simp del]

definition ensure_rowcap :: "sheet_parser_ctx \<Rightarrow> nat \<Rightarrow> sheet_parser_ctx" where
  "ensure_rowcap ctx n =
     (if n \<le> length (rowbuf ctx) then ctx
      else
        (let newcap = rowcap_loop (if length (rowbuf ctx) \<noteq> 0 then length (rowbuf ctx) else 16) n
         in ctx\<lparr>rowbuf := rowbuf ctx @ replicate (newcap - length (rowbuf ctx)) None\<rparr>))"

definition sheet_start :: "sheet_parser_ctx \<Rightarrow> string \<Rightarrow> (string \<times> string) list \<Rightarrow> sheet_parser_ctx" where
  "sheet_start ctx name atts =
     (if name = ''row'' then
        ctx\<lparr>current_row := foldl (\<lambda>r (k, v). if k = ''r'' then atoi v else r) 0 atts,
            rowbuf := map (\<lambda>_. None) (rowbuf ctx),
            maxcol := 0\<rparr>
      else if name = ''c'' then
        ctx\<lparr>in_c := True,
            cur_cell_ref := foldl (\<lambda>r (k, v). if k = ''r'' then take 63 v else r) [] atts,
            cur_cell_type := foldl (\<lambda>t (k, v). if k = ''r'' then t
                                                else if k = ''t'' then take 31 v else t) [] atts,
            cur_text := []\<rparr>
      else if name = ''v'' then ctx\<lparr>in_v := True\<rparr>
      else if name = ''is'' then ctx\<lparr>in_is := True\<rparr>
      else if name = ''t'' then ctx\<lparr>in_t := True\<rparr>
      else ctx)"

text \<open>
  The end of a \<open>c\<close> element. \<open>colletters\<close> is the reference up to its first digit, at
  most 31 bytes. \<open>cell_colidx\<close> is the index the value is stored at: a negative result of
  \<open>colname_to_index\<close> becomes 0. \<open>cell_val\<close> is the value stored: for a type that begins
  with \<open>s\<close> and a text that is not empty, the shared string the text indexes, or the
  empty string when the index is not one of the pool; in every other case the text.
\<close>

definition colletters :: "string \<Rightarrow> string" where
  "colletters ref = take 31 (takeWhile (\<lambda>c. \<not> isdigit_c c) ref)"

definition cell_colidx :: "sheet_parser_ctx \<Rightarrow> nat" where
  "cell_colidx ctx =
     (let colidx = colname_to_index (colletters (cur_cell_ref ctx))
      in nat (if colidx < 0 then 0 else colidx))"

definition cell_val :: "sheet_parser_ctx \<Rightarrow> string" where
  "cell_val ctx =
     (if (case cur_cell_type ctx of [] \<Rightarrow> False | c # _ \<Rightarrow> c = CHR ''s'') \<and> length (cur_text ctx) > 0
      then
        (let idx = atoi (cur_text ctx)
         in if idx \<ge> 0 \<and> nat idx < length (shared ctx) then shared ctx ! nat idx else [])
      else if in_is ctx then cur_text ctx
      else if in_v ctx then cur_text ctx
      else cur_text ctx)"

definition sheet_rows_emit :: "int \<Rightarrow> string option list \<Rightarrow> nat \<Rightarrow> sheet_row list \<Rightarrow> sheet_row list" where
  "sheet_rows_emit r cs ncols sr = sr @ [\<lparr>rownum = r, cols = take ncols cs\<rparr>]"

definition sheet_end :: "sheet_parser_ctx \<Rightarrow> string \<Rightarrow> sheet_parser_ctx" where
  "sheet_end ctx name =
     (if name = ''c'' then
        (let colidx = cell_colidx ctx;
             ctx1 = ensure_rowcap ctx (colidx + 1);
             val = cell_val ctx1
         in ctx1\<lparr>rowbuf := (rowbuf ctx1)[colidx := Some val],
                 maxcol := (if colidx + 1 > maxcol ctx1 then colidx + 1 else maxcol ctx1),
                 in_c := False, in_v := False, in_is := False,
                 cur_text := []\<rparr>)
      else if name = ''row'' then
        ctx\<lparr>emitted := sheet_rows_emit (current_row ctx) (rowbuf ctx) (maxcol ctx) (emitted ctx),
            rowbuf := map (\<lambda>_. None) (rowbuf ctx),
            maxcol := 0\<rparr>
      else if name = ''v'' then ctx\<lparr>in_v := False\<rparr>
      else if name = ''t'' then ctx\<lparr>in_t := False\<rparr>
      else if name = ''is'' then ctx\<lparr>in_is := False\<rparr>
      else ctx)"

definition sheet_char :: "sheet_parser_ctx \<Rightarrow> string \<Rightarrow> sheet_parser_ctx" where
  "sheet_char ctx s =
     (if in_v ctx \<or> in_t ctx then ctx\<lparr>cur_text := cur_text ctx @ s\<rparr> else ctx)"

fun sheet_event :: "sheet_parser_ctx \<Rightarrow> xml_event \<Rightarrow> sheet_parser_ctx" where
  "sheet_event ctx (StartElement name atts) = sheet_start ctx name atts"
| "sheet_event ctx (EndElement name) = sheet_end ctx name"
| "sheet_event ctx (CharData s) = sheet_char ctx s"

text \<open>
  The parser as \<open>import_xlsx_to_db\<close> sets it up. \<open>current_row\<close> is not initialised
  there; it is written at every \<open>row\<close> start, before it is read.
\<close>

definition sheet_parser_init :: "string list \<Rightarrow> sheet_parser_ctx" where
  "sheet_parser_init ss =
     \<lparr>shared = ss, in_v = False, in_t = False, in_is = False, in_c = False,
      cur_cell_ref = [], cur_cell_type = [], cur_text = [], current_row = 0,
      rowbuf = [], maxcol = 0, emitted = []\<rparr>"

definition parse_sheet :: "string list \<Rightarrow> xml_event list \<Rightarrow> sheet_row list" where
  "parse_sheet ss evs = emitted (foldl sheet_event (sheet_parser_init ss) evs)"

subsection \<open>Which sheets to import\<close>





subsection \<open>The import\<close>







section \<open>Import: the worksheet grid of opus/xlsximport.c\<close>

text \<open>
  A \<open>Row\<close> is the list of its \<open>count\<close> cells and a \<open>Worksheet\<close> the list of its \<open>count\<close>
  rows, with the largest column number seen. \<open>ws_get_row\<close> appends empty rows until
  row \<open>row_num\<close> (1-based) exists. \<open>ws_set_cell\<close> appends null cells to that row until
  column \<open>col_num\<close> (1-based) exists, then overwrites the cell at \<open>col_num\<close>. Its only
  caller, the end of a \<open>c\<close> element in \<open>ws_end_element\<close>, calls it when
  \<open>cur_row > 0 && cur_col > 0\<close> and drops the cell otherwise: \<open>ws_store\<close> is that call
  with its guard. (With a \<open>row_num\<close> or a \<open>col_num\<close> below 1 the C function would index
  before the array; the guard keeps \<open>ws_set_cell\<close> from being reached so.)
\<close>

record CellValue =
  cv_value :: "string option"
  cv_is_null :: bool

type_synonym Row = "CellValue list"

record Worksheet =
  ws_rows :: "Row list"
  max_col :: int

definition ws_init :: Worksheet where
  "ws_init = \<lparr>ws_rows = [], max_col = 0\<rparr>"

definition ws_get_row :: "Worksheet \<Rightarrow> int \<Rightarrow> Worksheet" where
  "ws_get_row ws row_num =
     ws\<lparr>ws_rows := ws_rows ws @ replicate (nat (row_num - int (length (ws_rows ws)))) []\<rparr>"

definition ws_set_cell :: "Worksheet \<Rightarrow> int \<Rightarrow> int \<Rightarrow> string option \<Rightarrow> Worksheet" where
  "ws_set_cell ws row_num col_num v =
     (let ws1 = ws_get_row ws row_num;
          row = ws_rows ws1 ! nat (row_num - 1);
          row1 = row @ replicate (nat (col_num - int (length row)))
                         \<lparr>cv_value = None, cv_is_null = True\<rparr>;
          row2 = row1[nat (col_num - 1) := \<lparr>cv_value = v, cv_is_null = (v = None)\<rparr>]
      in ws1\<lparr>ws_rows := (ws_rows ws1)[nat (row_num - 1) := row2],
              max_col := (if col_num > max_col ws1 then col_num else max_col ws1)\<rparr>)"

definition ws_store :: "Worksheet \<Rightarrow> int \<times> int \<times> string option \<Rightarrow> Worksheet" where
  "ws_store ws d =
     (case d of (cur_row, cur_col, v) \<Rightarrow>
        if cur_row > 0 \<and> cur_col > 0 then ws_set_cell ws cur_row cur_col v else ws)"

section \<open>Worksheet rows as documents\<close>

text \<open>
  To speak about the cells a worksheet declares, a row of the sheet XML is described by
  the cells it lists, and \<open>row_events\<close> gives the callbacks expat makes for it:
  \<open><row r="R">\<close>, then for each cell \<open><c r="REF" t="TYPE">\<close> (each attribute only when
  present) with either nothing inside, \<open><v>text</v>\<close>, or \<open><is><t>text</t></is>\<close>, then
  \<open></row>\<close>. The text arrives in one or more runs of character data.
\<close>

datatype cell_body = NoBody | ValueBody "string list" | InlineBody "string list"

record cell_decl =
  cd_ref :: "string option"
  cd_type :: "string option"
  cd_body :: cell_body

definition body_events :: "cell_body \<Rightarrow> xml_event list" where
  "body_events b =
     (case b of
        NoBody \<Rightarrow> []
      | ValueBody runs \<Rightarrow> [StartElement ''v'' []] @ map CharData runs @ [EndElement ''v'']
      | InlineBody runs \<Rightarrow>
          [StartElement ''is'' [], StartElement ''t'' []] @ map CharData runs @
          [EndElement ''t'', EndElement ''is''])"

definition cell_atts :: "cell_decl \<Rightarrow> (string \<times> string) list" where
  "cell_atts d =
     (case cd_ref d of None \<Rightarrow> [] | Some r \<Rightarrow> [(''r'', r)]) @
     (case cd_type d of None \<Rightarrow> [] | Some t \<Rightarrow> [(''t'', t)])"

definition cell_events :: "cell_decl \<Rightarrow> xml_event list" where
  "cell_events d = [StartElement ''c'' (cell_atts d)] @ body_events (cd_body d) @ [EndElement ''c'']"

definition row_events :: "string \<Rightarrow> cell_decl list \<Rightarrow> xml_event list" where
  "row_events r ds =
     [StartElement ''row'' [(''r'', r)]] @ concat (map cell_events ds) @ [EndElement ''row'']"

text \<open>
  The parser's view of a declared cell, in the importer of unnamed/part_001: the state
  in which the end of the \<open>c\<close> element finds the reference, the type and the text.
  \<open>decl_colidx\<close> and \<open>decl_val\<close> are that importer's \<open>cell_colidx\<close> and \<open>cell_val\<close>
  there.
\<close>

definition body_text :: "cell_body \<Rightarrow> string" where
  "body_text b = (case b of NoBody \<Rightarrow> [] | ValueBody runs \<Rightarrow> concat runs | InlineBody runs \<Rightarrow> concat runs)"

definition decl_ctx :: "string list \<Rightarrow> cell_decl \<Rightarrow> sheet_parser_ctx" where
  "decl_ctx ss d =
     (sheet_parser_init ss)
       \<lparr>cur_cell_ref := (case cd_ref d of None \<Rightarrow> [] | Some r \<Rightarrow> take 63 r),
        cur_cell_type := (case cd_type d of None \<Rightarrow> [] | Some t \<Rightarrow> take 31 t),
        cur_text := body_text (cd_body d)\<rparr>"

definition decl_colidx :: "cell_decl \<Rightarrow> nat" where
  "decl_colidx d = cell_colidx (decl_ctx [] d)"

definition decl_val :: "string list \<Rightarrow> cell_decl \<Rightarrow> string" where
  "decl_val ss d = cell_val (decl_ctx ss d)"

text \<open>
  A dense row, described from its declarations: \<open>row_width\<close> is one more than the
  largest declared index (0 when nothing is declared), and \<open>grid_row\<close> holds at every
  index below it the value of the last declaration for that index, or the default when
  there is none. \<open>put_cell\<close> is one declaration applied to a row: pad with the default up
  to the index, then overwrite.
\<close>

definition row_width :: "(nat \<times> 'a) list \<Rightarrow> nat" where
  "row_width kvs = foldl (\<lambda>w kv. max w (Suc (fst kv))) 0 kvs"

definition grid_row :: "'a \<Rightarrow> (nat \<times> 'a) list \<Rightarrow> 'a list" where
  "grid_row dflt kvs =
     map (\<lambda>i. case map_of (rev kvs) i of None \<Rightarrow> dflt | Some x \<Rightarrow> x) [0..<row_width kvs]"

definition put_cell :: "'a \<Rightarrow> 'a list \<Rightarrow> nat \<times> 'a \<Rightarrow> 'a list" where
  "put_cell dflt row kv = (row @ replicate (Suc (fst kv) - length row) dflt)[fst kv := snd kv]"

definition null_cell :: CellValue where
  "null_cell = \<lparr>cv_value = None, cv_is_null = True\<rparr>"

definition row_decls :: "(int \<times> int \<times> string option) list \<Rightarrow> nat \<Rightarrow> (nat \<times> CellValue) list" where
  "row_decls ds r =
     map (\<lambda>d. (nat (fst (snd d) - 1), \<lparr>cv_value = snd (snd d), cv_is_null = (snd (snd d) = None)\<rparr>))
       (filter (\<lambda>d. fst d = int r + 1 \<and> fst (snd d) > 0) ds)"

text \<open>
  Notions for the proofs about the part-001 parser. \<open>row_view\<close> is the part of the row
  buffer that the end of the row will emit, and \<open>row_inv\<close> says that \<open>maxcol\<close> is within
  the buffer and that the buffer holds \<open>NULL\<close> from \<open>maxcol\<close> on. \<open>at_cell_end\<close> is a parser
  state with the reference, the type and the text of a declared cell; \<open>decl_kvs\<close> lists
  a row's declarations as pairs of index and stored value; \<open>sheet_events\<close> is the
  callbacks for a sheet given as its rows, each with the text of its \<open>r\<close> attribute.
\<close>

definition row_view :: "sheet_parser_ctx \<Rightarrow> string option list" where
  "row_view ctx = take (maxcol ctx) (rowbuf ctx)"

definition row_inv :: "sheet_parser_ctx \<Rightarrow> bool" where
  "row_inv ctx =
     (maxcol ctx \<le> length (rowbuf ctx) \<and> list_all (\<lambda>x. x = None) (drop (maxcol ctx) (rowbuf ctx)))"

definition at_cell_end :: "sheet_parser_ctx \<Rightarrow> string list \<Rightarrow> cell_decl \<Rightarrow> sheet_parser_ctx" where
  "at_cell_end ctx ss d =
     ctx\<lparr>cur_cell_ref := cur_cell_ref (decl_ctx ss d),
         cur_cell_type := cur_cell_type (decl_ctx ss d),
         cur_text := cur_text (decl_ctx ss d)\<rparr>"

definition decl_kvs :: "string list \<Rightarrow> cell_decl list \<Rightarrow> (nat \<times> string option) list" where
  "decl_kvs ss ds = map (\<lambda>d. (decl_colidx d, Some (decl_val ss d))) ds"

definition sheet_events :: "(string \<times> cell_decl list) list \<Rightarrow> xml_event list" where
  "sheet_events rws = concat (map (\<lambda>rw. row_events (fst rw) (snd rw)) rws)"

definition row_or_empty :: "Worksheet \<Rightarrow> nat \<Rightarrow> Row" where
  "row_or_empty ws r = (if r < length (ws_rows ws) then ws_rows ws ! r else [])"

section \<open>Export: the shared-string table (copilot/xlsxexport.c)\<close>

text \<open>
  \<open>sst\<close> is the exporter's pool of shared strings, in insertion order. \<open>sst_index\<close>
  scans it from the front with \<open>strcmp\<close> and returns the index of the first equal
  entry; when there is none it appends the text and returns the old \<open>count\<close>. It gives
  back the index and the pool it leaves behind.
\<close>

type_synonym sst = "string list"

definition sst_init :: sst where
  "sst_init = []"

fun sst_scan :: "string list \<Rightarrow> string \<Rightarrow> nat \<Rightarrow> nat option" where
  "sst_scan [] txt i = None"
| "sst_scan (x # xs) txt i = (if x = txt then Some i else sst_scan xs txt (Suc i))"

definition sst_index :: "sst \<Rightarrow> string option \<Rightarrow> nat \<times> sst" where
  "sst_index s txt0 =
     (let txt = (case txt0 of None \<Rightarrow> [] | Some t \<Rightarrow> t)
      in case sst_scan s txt 0 of
           Some i \<Rightarrow> (i, s)
         | None \<Rightarrow> (length s, s @ [txt]))"

section \<open>Export: sheet names (copilot/xlsxexport.c)\<close>

text \<open>
  \<open>sanitize_sheet_name name idx existing\<close>: \<open>name\<close> is the table name (\<open>NULL\<close> reads as
  the empty string), \<open>idx\<close> the 0-based position of the table among the arguments and
  \<open>existing\<close> the sheet names already given out (the exporter passes the names of the
  tables before this one; none of them is \<open>NULL\<close>). The steps, in the code's order:
  white space is trimmed at both ends; the bytes \<open>: \ / ? * [ ]\<close> are removed; one
  apostrophe is removed at the front if there is one, then one at the end if there is
  one; an empty result becomes \<open>Sheet<idx+1>\<close>; the result is cut to 31 bytes; then,
  while the name is one of \<open>existing\<close>, it is replaced by itself followed by
  \<open> (<suffix>)\<close>, cut to 31 bytes, with \<open>suffix\<close> counting from 1.

  That last loop has no bound in the code. It is a partial function here: \<open>None\<close> means
  that the loop never ends.
\<close>

definition forbidden_char :: "char \<Rightarrow> bool" where
  "forbidden_char c =
     (c = CHR '':'' \<or> c = CHR 0x5C \<or> c = CHR ''/'' \<or> c = CHR ''?'' \<or> c = CHR ''*''
      \<or> c = CHR ''['' \<or> c = CHR '']'')"

definition trim_whitespace :: "string \<Rightarrow> string" where
  "trim_whitespace name = rev (dropWhile isspace_c (rev (dropWhile isspace_c name)))"

definition strip_quotes :: "string \<Rightarrow> string" where
  "strip_quotes tmp =
     (let t1 = (case tmp of [] \<Rightarrow> [] | c # r \<Rightarrow> if c = CHR 0x27 then r else tmp)
      in if length t1 > 0 \<and> last t1 = CHR 0x27 then butlast t1 else t1)"

definition sheet_name_base :: "string option \<Rightarrow> int \<Rightarrow> string" where
  "sheet_name_base name0 idx =
     (let name = (case name0 of None \<Rightarrow> [] | Some n \<Rightarrow> n);
          tmp = strip_quotes (filter (\<lambda>c. \<not> forbidden_char c) (trim_whitespace name));
          tmp1 = (if tmp = [] then ''Sheet'' @ dec_int (int32_wrap (idx + 1)) else tmp)
      in take 31 tmp1)"

partial_function (option) unique_loop :: "string list \<Rightarrow> string \<Rightarrow> int \<Rightarrow> string option" where
  "unique_loop existing tmp suffix =
     (if tmp \<in> set existing
      then unique_loop existing (take 31 (tmp @ '' ('' @ dec_int suffix @ '')''))
             (int32_wrap (suffix + 1))
      else Some tmp)"

declare unique_loop.simps [code]

definition sanitize_sheet_name :: "string option \<Rightarrow> int \<Rightarrow> string list \<Rightarrow> string option" where
  "sanitize_sheet_name name idx existing = unique_loop existing (sheet_name_base name idx) 1"

text \<open>
  The loop of \<open>xlsx_export_func\<close> that names the sheets: table \<open>i\<close> is named against the
  names of the tables before it.
\<close>

fun sanitize_names :: "string list \<Rightarrow> nat \<Rightarrow> string list \<Rightarrow> string list option" where
  "sanitize_names [] i sheet_names = Some sheet_names"
| "sanitize_names (raw # raws) i sheet_names =
     (case sanitize_sheet_name (Some raw) (int i) sheet_names of
        None \<Rightarrow> None
      | Some u \<Rightarrow> sanitize_names raws (Suc i) (sheet_names @ [u]))"

section \<open>Export: worksheets with the cell-size limit (the exporter in opus/xlsximport.c)\<close>

text \<open>
  What SQLite hands to the exporter. A value is an integer, a float (kept as the text
  that \<open>printf\<close>'s \<open>%.15g\<close> gives for it: floating point is outside this model), a text or
  a blob (their bytes; a text may hold NUL bytes, and C string functions stop at the
  first), or \<open>NULL\<close>. \<open>table_scan\<close> is the outcome of \<open>SELECT * FROM table\<close>: the column
  names, the rows stepped through, and whether the scan ended with \<open>SQLITE_DONE\<close>
  rather than an error; every row has one value for each column. A database maps a
  table name to its scan, \<open>None\<close> when the statement cannot be prepared (no such table).
\<close>

datatype sqlite_value =
    SqlInteger int
  | SqlFloat string
  | SqlText string
  | SqlBlob string
  | SqlNull

record table_scan =
  col_names :: "string list"
  scan_rows :: "sqlite_value list list"
  scan_done :: bool

record ExportWarnings =
  cells_truncated :: int
  first_truncated_row :: int
  first_truncated_col :: int
  first_truncated_table :: "string option"

datatype export_error =
    UsageError
  | FilenameNotText
  | TableNameNotText
  | PrepareFailed string
  | ReadFailed string
  | ZipFailed

definition EXCEL_MAX_CELL_SIZE :: nat where
  "EXCEL_MAX_CELL_SIZE = 32767"

definition c_string :: "string \<Rightarrow> string" where
  "c_string s = takeWhile (\<lambda>c. c \<noteq> CHR 0x00) s"

function col_to_letter_loop :: "int \<Rightarrow> string" where
  "col_to_letter_loop col =
     (if col > 0 then char_of (65 + (col - 1) mod 26) # col_to_letter_loop ((col - 1) div 26)
      else [])"
  by pat_completeness auto
termination
  by (relation "measure nat") auto

declare col_to_letter_loop.simps [simp del]

definition col_to_letter :: "int \<Rightarrow> string" where
  "col_to_letter col = rev (col_to_letter_loop (int32_wrap (col + 1)))"

definition xml_escape_char :: "char \<Rightarrow> string" where
  "xml_escape_char c =
     (if c = CHR ''&'' then ''&amp;''
      else if c = CHR ''<'' then ''&lt;''
      else if c = CHR ''>'' then ''&gt;''
      else if c = CHR 0x22 then ''&quot;''
      else if c = CHR 0x27 then ''&apos;''
      else if (of_char c :: nat) < 32 \<and> c \<noteq> CHR 0x09 \<and> c \<noteq> CHR 0x0A \<and> c \<noteq> CHR 0x0D then []
      else [c])"

definition xml_escape :: "string \<Rightarrow> string" where
  "xml_escape s = concat (map xml_escape_char (c_string s))"

definition hex_digit :: "nat \<Rightarrow> char" where
  "hex_digit n = (if n < 10 then char_of (48 + n) else char_of (55 + n))"

definition hex_byte :: "char \<Rightarrow> string" where
  "hex_byte b = [hex_digit ((of_char b :: nat) div 16), hex_digit ((of_char b :: nat) mod 16)]"

text \<open>
  \<open>note_truncated\<close> is the bookkeeping done for a cell that is cut: the count goes up by
  one, and the first cut cell's row, 1-based column and table are kept.
\<close>

definition note_truncated :: "ExportWarnings \<Rightarrow> string \<Rightarrow> int \<Rightarrow> nat \<Rightarrow> ExportWarnings" where
  "note_truncated w table_name row_num col =
     (let w1 = w\<lparr>cells_truncated := int32_wrap (cells_truncated w + 1)\<rparr>
      in if cells_truncated w1 = 1
         then w1\<lparr>first_truncated_row := row_num,
                 first_truncated_col := int col + 1,
                 first_truncated_table := Some table_name\<rparr>
         else w1)"

text \<open>One data cell: the bytes appended to the worksheet and the warnings afterwards.\<close>

definition gen_cell ::
  "string \<Rightarrow> int \<Rightarrow> nat \<Rightarrow> sqlite_value \<Rightarrow> ExportWarnings \<Rightarrow> string \<times> ExportWarnings" where
  "gen_cell table_name row_num col v w =
     (let col_letter = col_to_letter (int col)
      in case v of
           SqlInteger i \<Rightarrow>
             (''<c r=\"'' @ col_letter @ dec_int row_num @ ''\"><v>'' @ dec_int i @ ''</v></c>'', w)
         | SqlFloat d \<Rightarrow>
             (''<c r=\"'' @ col_letter @ dec_int row_num @ ''\"><v>'' @ d @ ''</v></c>'', w)
         | SqlText text \<Rightarrow>
             (''<c r=\"'' @ col_letter @ dec_int row_num @ ''\" t=\"inlineStr\"><is><t>'' @
                xml_escape (if length text > EXCEL_MAX_CELL_SIZE
                            then take EXCEL_MAX_CELL_SIZE text else text) @
                ''</t></is></c>'',
              if length text > EXCEL_MAX_CELL_SIZE
              then note_truncated w table_name row_num col else w)
         | SqlBlob blob \<Rightarrow>
             (''<c r=\"'' @ col_letter @ dec_int row_num @ ''\" t=\"inlineStr\"><is><t>'' @
                concat (map hex_byte
                  (if length blob * 2 > EXCEL_MAX_CELL_SIZE
                   then take (EXCEL_MAX_CELL_SIZE div 2) blob else blob)) @
                ''</t></is></c>'',
              if length blob * 2 > EXCEL_MAX_CELL_SIZE
              then note_truncated w table_name row_num col else w)
         | SqlNull \<Rightarrow> ([], w))"

fun gen_cells ::
  "string \<Rightarrow> int \<Rightarrow> nat \<Rightarrow> sqlite_value list \<Rightarrow> ExportWarnings \<Rightarrow> string \<times> ExportWarnings" where
  "gen_cells table_name row_num col [] w = ([], w)"
| "gen_cells table_name row_num col (v # vs) w =
     (let c = gen_cell table_name row_num col v w;
          r = gen_cells table_name row_num (Suc col) vs (snd c)
      in (fst c @ fst r, snd r))"

fun gen_rows ::
  "string \<Rightarrow> int \<Rightarrow> sqlite_value list list \<Rightarrow> ExportWarnings \<Rightarrow> string \<times> int \<times> ExportWarnings" where
  "gen_rows table_name row_num [] w = ([], row_num, w)"
| "gen_rows table_name row_num (vals # rest) w =
     (let c = gen_cells table_name row_num 0 vals w;
          r = gen_rows table_name (row_num + 1) rest (snd c)
      in (''<row r=\"'' @ dec_int row_num @ ''\">'' @ fst c @ ''</row>'' @ fst r, snd r))"

text \<open>The header row: each column name is escaped and written as it is.\<close>

fun gen_header :: "nat \<Rightarrow> string list \<Rightarrow> string" where
  "gen_header col [] = []"
| "gen_header col (col_name # rest) =
     ''<c r=\"'' @ col_to_letter (int col) @ ''1\" t=\"inlineStr\" s=\"1\"><is><t>'' @
     xml_escape col_name @ ''</t></is></c>'' @ gen_header (Suc col) rest"

definition worksheet_open :: string where
  "worksheet_open =
     ''<?xml version=\"1.0\" encoding=\"UTF-8\" standalone=\"yes\"?>'' @ [CHR 0x0A] @
     ''<worksheet xmlns=\"http://schemas.openxmlformats.org/spreadsheetml/2006/main\" '' @
     ''xmlns:r=\"http://schemas.openxmlformats.org/officeDocument/2006/relationships\">'' @
     ''<sheetData>''"

definition gen_worksheet ::
  "(string \<Rightarrow> table_scan option) \<Rightarrow> string \<Rightarrow> ExportWarnings \<Rightarrow>
   (export_error + string) \<times> ExportWarnings" where
  "gen_worksheet db table_name warnings =
     (case db table_name of
        None \<Rightarrow> (Inl (PrepareFailed table_name), warnings)
      | Some scan \<Rightarrow>
          (let col_count = length (col_names scan);
               r = gen_rows table_name 2 (scan_rows scan) warnings;
               last_row = fst (snd r) - 1
           in if \<not> scan_done scan then (Inl (ReadFailed table_name), snd (snd r))
              else
                (Inr (worksheet_open @
                      ''<row r=\"1\">'' @ gen_header 0 (col_names scan) @ ''</row>'' @
                      fst r @ ''</sheetData>'' @
                      (if col_count > 0
                       then ''<autoFilter ref=\"A1:'' @ col_to_letter (int col_count - 1) @
                            dec_int last_row @ ''\"/>''
                       else []) @
                      ''</worksheet>''),
                 snd (snd r))))"

text \<open>
  \<open>xlsx_export_func\<close>: the arguments are the file name and the table names. Every
  worksheet is generated first; the first failure ends the export. The fixed parts of
  the package do not depend on the data and are not modelled; \<open>zip_ok\<close> tells whether
  the archive could be written. On success the result is the file name, followed by the
  warning when cells were cut.
\<close>

fun gen_worksheets ::
  "(string \<Rightarrow> table_scan option) \<Rightarrow> string list \<Rightarrow> ExportWarnings \<Rightarrow>
   (export_error + string list) \<times> ExportWarnings" where
  "gen_worksheets db [] w = (Inr [], w)"
| "gen_worksheets db (t # ts) w =
     (case gen_worksheet db t w of
        (Inl e, w1) \<Rightarrow> (Inl e, w1)
      | (Inr x, w1) \<Rightarrow>
          (case gen_worksheets db ts w1 of
             (Inl e, w2) \<Rightarrow> (Inl e, w2)
           | (Inr xs, w2) \<Rightarrow> (Inr (x # xs), w2)))"

definition value_text :: "sqlite_value \<Rightarrow> string option" where
  "value_text v = (case v of SqlText s \<Rightarrow> Some (c_string s) | _ \<Rightarrow> None)"

definition warning_text :: "string \<Rightarrow> ExportWarnings \<Rightarrow> string" where
  "warning_text filename w =
     filename @ '' (WARNING: '' @ dec_int (cells_truncated w) @
     '' cell(s) exceeded Excel'' @ [CHR 0x27] @ ''s '' @ dec_nat EXCEL_MAX_CELL_SIZE @
     '' character limit and were truncated. First occurrence: table '' @ [CHR 0x27] @
     (case first_truncated_table w of None \<Rightarrow> ''(null)'' | Some t \<Rightarrow> t) @ [CHR 0x27] @
     '', row '' @ dec_int (first_truncated_row w) @
     '', column '' @ dec_int (first_truncated_col w) @ '')''"

definition xlsx_export_func ::
  "(string \<Rightarrow> table_scan option) \<Rightarrow> bool \<Rightarrow> sqlite_value list \<Rightarrow> export_error + string" where
  "xlsx_export_func db zip_ok argv =
     (if length argv < 2 then Inl UsageError
      else
        (case value_text (hd argv) of
           None \<Rightarrow> Inl FilenameNotText
         | Some filename \<Rightarrow>
             if \<not> list_all (\<lambda>v. value_text v \<noteq> None) (tl argv) then Inl TableNameNotText
             else
               (case gen_worksheets db (map (\<lambda>v. the (value_text v)) (tl argv))
                       \<lparr>cells_truncated = 0, first_truncated_row = 0,
                        first_truncated_col = 0, first_truncated_table = None\<rparr> of
                  (Inl e, w) \<Rightarrow> Inl e
                | (Inr sheets, w) \<Rightarrow>
                    if \<not> zip_ok then Inl ZipFailed
                    else if cells_truncated w > 0 then Inr (warning_text filename w)
                    else Inr filename)))"

text \<open>Inputs for examples: a sheet name of 31 bytes, and a text of 32768 bytes.\<close>

definition name31 :: string where
  "name31 = ''Quarterly revenue by region 001''"

definition long_text :: "nat \<Rightarrow> string" where
  "long_text n = replicate n (CHR ''a'')"

section \<open>Import: the same cases in the other importers\<close>

text \<open>
  The value that \<open>ws_end_element\<close> (opus/xlsximport.c) hands to \<open>ws_set_cell\<close> at the
  end of a \<open>c\<close> element: \<open>cur_type\<close> is the letter kept for the cell type, \<open>text\<close> the
  accumulated text (\<open>None\<close> when no buffer was allocated) and \<open>ss\<close> the shared strings
  (\<open>None\<close> when the workbook has none). \<open>None\<close> is the \<open>NULL\<close> value.
\<close>

definition ws_end_value :: "char \<Rightarrow> string option \<Rightarrow> string list option \<Rightarrow> string option" where
  "ws_end_value cur_type text ss =
     (if cur_type = CHR ''s'' \<and> text \<noteq> None \<and> ss \<noteq> None
      then (let idx = atoi (the text)
            in if 0 \<le> idx \<and> idx < int (length (the ss)) then Some (the ss ! nat idx) else None)
      else if cur_type = CHR ''i'' then text
      else if text \<noteq> None \<and> the text \<noteq> [] then text
      else None)"

text \<open>
  \<open>should_import\<close> of the third importer in opus/xlsximport.c: \<open>argv\<close> holds the file
  name and then the selectors, as SQL values; \<open>sheet_idx\<close> is the 0-based position of
  the sheet and \<open>sheet_name\<close> its name. The function is not given the declared id.
\<close>

fun should_import_args :: "sqlite_value list \<Rightarrow> int \<Rightarrow> string \<Rightarrow> bool" where
  "should_import_args [] sheet_idx sheet_name = False"
| "should_import_args (v # vs) sheet_idx sheet_name =
     (case v of
        SqlInteger i \<Rightarrow>
          if int32_wrap i = int32_wrap (sheet_idx + 1) then True
          else should_import_args vs sheet_idx sheet_name
      | SqlText s \<Rightarrow>
          if c_string s = sheet_name then True
          else should_import_args vs sheet_idx sheet_name
      | _ \<Rightarrow> should_import_args vs sheet_idx sheet_name)"

definition should_import :: "sqlite_value list \<Rightarrow> int \<Rightarrow> string \<Rightarrow> bool" where
  "should_import argv sheet_idx sheet_name =
     (if length argv \<le> 1 then True else should_import_args (tl argv) sheet_idx sheet_name)"


section \<open>Properties of the shared-string table\<close>

lemma sst_scan_None: "sst_scan xs txt i = None \<longleftrightarrow> txt \<notin> set xs"
  by (induction xs arbitrary: i) auto

lemma sst_scan_Some:
  "sst_scan xs txt i = Some j \<Longrightarrow> i \<le> j \<and> j - i < length xs \<and> xs ! (j - i) = txt"
proof (induction xs arbitrary: i)
  case Nil
  then show ?case by simp
next
  case (Cons x xs)
  show ?case
  proof (cases "x = txt")
    case True
    with Cons.prems show ?thesis by simp
  next
    case False
    with Cons.prems have s: "sst_scan xs txt (Suc i) = Some j" by simp
    from Cons.IH [OF s] have "Suc i \<le> j" "j - Suc i < length xs" "xs ! (j - Suc i) = txt"
      by simp_all
    moreover from \<open>Suc i \<le> j\<close> have "j - i = Suc (j - Suc i)" by simp
    ultimately show ?thesis by simp
  qed
qed

lemma sst_scan_append:
  "sst_scan xs txt i = Some j \<Longrightarrow> sst_scan (xs @ ys) txt i = Some j"
  by (induction xs arbitrary: i) (auto split: if_splits)

lemma sst_scan_fresh:
  "txt \<notin> set xs \<Longrightarrow> sst_scan (xs @ [txt]) txt i = Some (i + length xs)"
  by (induction xs arbitrary: i) auto

lemma sst_index_present:
  assumes "txt \<in> set s"
  shows "snd (sst_index s (Some txt)) = s"
    and "fst (sst_index s (Some txt)) < length s"
    and "s ! fst (sst_index s (Some txt)) = txt"
proof -
  from assms have "sst_scan s txt 0 \<noteq> None"
    by (simp add: sst_scan_None)
  then obtain j where j: "sst_scan s txt 0 = Some j"
    by auto
  from sst_scan_Some [OF j] have "j < length s" "s ! j = txt" by simp_all
  with j show "snd (sst_index s (Some txt)) = s"
    and "fst (sst_index s (Some txt)) < length s"
    and "s ! fst (sst_index s (Some txt)) = txt"
    by (simp_all add: sst_index_def)
qed

lemma sst_index_resolves:
  "sst_index s (Some txt) = (i, s') \<Longrightarrow> i < length s' \<and> s' ! i = txt \<and> txt \<in> set s'"
proof (cases "sst_scan s txt 0")
  case None
  assume "sst_index s (Some txt) = (i, s')"
  with None show ?thesis by (auto simp: sst_index_def nth_append)
next
  case (Some j)
  assume a: "sst_index s (Some txt) = (i, s')"
  from sst_scan_Some [OF Some] have "j < length s" "s ! j = txt" by simp_all
  with a Some show ?thesis by (auto simp: sst_index_def)
qed

lemma sst_index_keeps:
  "sst_index s (Some txt) = (i, s') \<Longrightarrow> j < length s \<Longrightarrow> j < length s' \<and> s' ! j = s ! j"
  by (cases "sst_scan s txt 0") (auto simp: sst_index_def nth_append)

lemma sst_index_again:
  assumes "sst_index s (Some txt) = (i, s')"
  shows "sst_index s' (Some txt) = (i, s')"
proof (cases "sst_scan s txt 0")
  case None
  then have "txt \<notin> set s" by (simp add: sst_scan_None)
  from sst_scan_fresh [OF this, of 0] None assms show ?thesis
    by (auto simp: sst_index_def)
next
  case (Some j)
  with assms show ?thesis by (auto simp: sst_index_def)
qed

text \<open>
  C4. Interning is idempotent and injective on distinct texts. For every pool \<open>s\<close>:
  a text that is already in the pool gets the index of an entry equal to it and the pool
  is returned unchanged; interning the same text a second time returns the same index and
  leaves the pool as the first call left it; and the indices returned for two distinct
  texts, interned one after the other, differ.
\<close>

theorem sst_index_idempotent_injective:
  "(txt \<in> set s \<longrightarrow>
      snd (sst_index s (Some txt)) = s \<and>
      fst (sst_index s (Some txt)) < length s \<and>
      s ! fst (sst_index s (Some txt)) = txt)
   \<and> sst_index (snd (sst_index s (Some txt))) (Some txt) = sst_index s (Some txt)
   \<and> (a \<noteq> b \<longrightarrow>
        fst (sst_index s (Some a)) \<noteq> fst (sst_index (snd (sst_index s (Some a))) (Some b)))"
proof (intro conjI impI)
  assume "txt \<in> set s"
  then show "snd (sst_index s (Some txt)) = s"
    and "fst (sst_index s (Some txt)) < length s"
    and "s ! fst (sst_index s (Some txt)) = txt"
    by (rule sst_index_present)+
next
  obtain i s' where r: "sst_index s (Some txt) = (i, s')" by (cases "sst_index s (Some txt)")
  from sst_index_again [OF r] r
  show "sst_index (snd (sst_index s (Some txt))) (Some txt) = sst_index s (Some txt)" by simp
next
  assume ab: "a \<noteq> b"
  obtain i1 s1 where r1: "sst_index s (Some a) = (i1, s1)" by (cases "sst_index s (Some a)")
  obtain i2 s2 where r2: "sst_index s1 (Some b) = (i2, s2)" by (cases "sst_index s1 (Some b)")
  from sst_index_resolves [OF r1] have a1: "i1 < length s1" "s1 ! i1 = a" by simp_all
  from sst_index_keeps [OF r2 a1(1)] a1 have "s2 ! i1 = a" by simp
  moreover from sst_index_resolves [OF r2] have "s2 ! i2 = b" by simp
  ultimately have "i1 \<noteq> i2" using ab by auto
  with r1 r2 show "fst (sst_index s (Some a)) \<noteq> fst (sst_index (snd (sst_index s (Some a))) (Some b))"
    by simp
qed

theorem sst_index_idempotent_injective_witness:
  "sst_index [''id'', ''name''] (Some ''name'') = (1, [''id'', ''name''])
   \<and> sst_index (snd (sst_index [''id'', ''name''] (Some ''name''))) (Some ''name'')
       = sst_index [''id'', ''name''] (Some ''name'')
   \<and> fst (sst_index [''id'', ''name''] (Some ''note'')) = 2
   \<and> fst (sst_index (snd (sst_index [''id'', ''name''] (Some ''note''))) (Some ''name'')) = 1"
  using sst_index_idempotent_injective [of "''name''" "[''id'', ''name'']" "''note''" "''name''"]
  by (simp add: sst_index_def)

section \<open>Column letters: decoding what was encoded\<close>

lemma int32_wrap_id: "- 2147483648 \<le> x \<Longrightarrow> x < 2147483648 \<Longrightarrow> int32_wrap x = x"
  by (simp add: int32_wrap_def)

lemma letter_char:
  assumes "0 \<le> r" "r < 26"
  shows "isupper_c (char_of (65 + r :: int))" and "toupper_c (char_of (65 + r :: int)) = 65 + r"
    and "isalpha_c (char_of (65 + r :: int))"
proof -
  have i: "(of_char (char_of (65 + r :: int)) :: int) = 65 + r"
    using assms by simp
  have "int (of_char (char_of (65 + r :: int)) :: nat) = (of_char (char_of (65 + r :: int)) :: int)"
    by (rule of_nat_of_char)
  then have "(of_char (char_of (65 + r :: int)) :: nat) = nat (of_char (char_of (65 + r :: int)) :: int)"
    by linarith
  with i have n: "(of_char (char_of (65 + r :: int)) :: nat) = nat (65 + r)" by simp
  from assms have "65 \<le> nat (65 + r)" "nat (65 + r) \<le> 90" by linarith+
  with n show u: "isupper_c (char_of (65 + r :: int))"
    by (simp add: isupper_c_def)
  from \<open>nat (65 + r) \<le> 90\<close> n have "\<not> islower_c (char_of (65 + r :: int))"
    by (simp add: islower_c_def)
  with i show "toupper_c (char_of (65 + r :: int)) = 65 + r"
    by (simp add: toupper_c_def)
  from u show "isalpha_c (char_of (65 + r :: int))" by (simp add: isalpha_c_def)
qed

lemma col_to_num_loop_append:
  "list_all isalpha_c xs \<Longrightarrow> col_to_num_loop num (xs @ ys) = col_to_num_loop (col_to_num_loop num xs) ys"
  by (induction xs arbitrary: num) auto

lemma col_to_letters_loop_alpha: "list_all isalpha_c (col_to_letters_loop v pos)"
proof (induction v pos rule: col_to_letters_loop.induct)
  case (1 v pos)
  show ?case
  proof (cases "v > 0 \<and> pos < 15")
    case True
    have "isalpha_c (char_of (65 + (v - 1) mod 26))"
      by (rule letter_char) simp_all
    with True 1 show ?thesis by (subst col_to_letters_loop.simps) simp
  next
    case False
    then show ?thesis by (subst col_to_letters_loop.simps) auto
  qed
qed

lemma col_to_letters_loop_length:
  "0 \<le> v \<Longrightarrow> v < 26 ^ k \<Longrightarrow> length (col_to_letters_loop v pos) \<le> k"
proof (induction v pos arbitrary: k rule: col_to_letters_loop.induct)
  case (1 v pos)
  show ?case
  proof (cases "v > 0 \<and> pos < 15")
    case True
    with "1.prems" obtain k' where k: "k = Suc k'" by (cases k) auto
    from True "1.prems" k have "(v - 1) div 26 < 26 ^ k'" by simp
    moreover from True have "0 \<le> v - 1" by simp
    then have "0 \<le> (v - 1) div 26" by (simp add: pos_imp_zdiv_nonneg_iff)
    ultimately have "length (col_to_letters_loop ((v - 1) div 26) (pos + 1)) \<le> k'"
      using "1.IH" True by blast
    with True k show ?thesis by (subst col_to_letters_loop.simps) simp
  next
    case False
    then show ?thesis by (subst col_to_letters_loop.simps) auto
  qed
qed

lemma col_to_letters_loop_decode:
  "0 \<le> v \<Longrightarrow> v < 26 ^ (15 - pos) \<Longrightarrow> v < 2147483648 \<Longrightarrow>
   col_to_num_loop 0 (rev (col_to_letters_loop v pos)) = v"
proof (induction v pos rule: col_to_letters_loop.induct)
  case (1 v pos)
  show ?case
  proof (cases "v > 0 \<and> pos < 15")
    case True
    let ?r = "(v - 1) mod 26" and ?q = "(v - 1) div 26"
    let ?c = "char_of (65 + ?r)"
    from True obtain j where j: "15 - pos = Suc j" "15 - (pos + 1) = j" by (cases "15 - pos") auto
    from True have "0 \<le> v - 1" by simp
    then have q0: "0 \<le> ?q" by (simp add: pos_imp_zdiv_nonneg_iff)
    from "1.prems" j have q1: "?q < 26 ^ (15 - (pos + 1))" by simp
    from True "1.prems" have q2: "?q < 2147483648" by simp
    have ih: "col_to_num_loop 0 (rev (col_to_letters_loop ?q (Suc pos))) = ?q"
      using "1.IH" True q0 q1 q2 by simp
    have v: "?q * 26 + ?r + 1 = v" by simp
    have r: "0 \<le> ?r" "?r < 26" by simp_all
    have "col_to_num_loop 0 (rev (col_to_letters_loop v pos))
        = col_to_num_loop 0 (rev (col_to_letters_loop ?q (Suc pos)) @ [?c])"
      using True by (subst col_to_letters_loop.simps) simp
    also have "\<dots> = col_to_num_loop (col_to_num_loop 0 (rev (col_to_letters_loop ?q (Suc pos)))) [?c]"
      using col_to_letters_loop_alpha [of ?q "Suc pos"]
      by (intro col_to_num_loop_append) simp
    also have "\<dots> = col_to_num_loop ?q [?c]"
      by (simp only: ih)
    also have "\<dots> = int32_wrap (?q * 26 + (toupper_c ?c - 65 + 1))"
      using letter_char(3) [OF r] by simp
    also have "\<dots> = int32_wrap v"
      using letter_char(2) [OF r] v by (simp add: algebra_simps)
    also have "\<dots> = v"
      using "1.prems" by (intro int32_wrap_id) simp_all
    finally show ?thesis .
  next
    case False
    with "1.prems" have "v = 0" by (cases "pos < 15") auto
    then show ?thesis by (subst col_to_letters_loop.simps) auto
  qed
qed

lemma col_to_letters_decoded:
  assumes "1 \<le> n" "n \<le> 16384"
  shows "col_to_num (col_to_letters (n - 1) 8) = n"
proof -
  from assms have w: "int32_wrap (n - 1 + 1) = n" by (simp add: int32_wrap_id)
  from assms have "n < 26 ^ 3" by simp
  with assms have "length (col_to_letters_loop n 0) \<le> 3"
    by (intro col_to_letters_loop_length) simp_all
  then have t: "take (8 - 1) (rev (col_to_letters_loop n 0)) = rev (col_to_letters_loop n 0)"
    by simp
  from assms have "col_to_num_loop 0 (rev (col_to_letters_loop n 0)) = n"
    by (intro col_to_letters_loop_decode) simp_all
  with w t show ?thesis by (simp add: col_to_num_def col_to_letters_def)
qed
text \<open>
  C2. Column-letter arithmetic is a bijective base-26 numbering without a zero digit.
  For every \<open>n\<close> from 1 to 16384, decoding (\<open>col_to_num\<close>) the letters that the
  exporter's encoder (\<open>col_to_letters\<close>, called with the 0-based index \<open>n - 1\<close> and its
  buffer of 8 bytes) produces gives \<open>n\<close> again. The spot values hold in both directions:
  Z = 26, AA = 27, AZ = 52, BA = 53, ZZ = 702, AAA = 703. Each upper-case letter \<open>c\<close>
  takes the value decoded so far, \<open>num\<close>, to \<open>num * 26 + (c - 'A' + 1)\<close> (while that
  fits a C \<open>int\<close>).
\<close>

theorem column_letters_roundtrip:
  "(1 \<le> n \<and> n \<le> 16384 \<longrightarrow> col_to_num (col_to_letters (n - 1) 8) = n)
   \<and> col_to_num ''Z'' = 26 \<and> col_to_num ''AA'' = 27 \<and> col_to_num ''AZ'' = 52
   \<and> col_to_num ''BA'' = 53 \<and> col_to_num ''ZZ'' = 702 \<and> col_to_num ''AAA'' = 703
   \<and> col_to_letters 25 8 = ''Z'' \<and> col_to_letters 26 8 = ''AA'' \<and> col_to_letters 51 8 = ''AZ''
   \<and> col_to_letters 52 8 = ''BA'' \<and> col_to_letters 701 8 = ''ZZ'' \<and> col_to_letters 702 8 = ''AAA''
   \<and> (isupper_c c \<and> 0 \<le> num \<and> num < 82595524 \<longrightarrow>
        col_to_num_loop num (c # cs) = col_to_num_loop (num * 26 + (of_char c - 65 + 1)) cs)"
proof (intro conjI impI)
  assume "1 \<le> n \<and> n \<le> 16384"
  then show "col_to_num (col_to_letters (n - 1) 8) = n"
    by (intro col_to_letters_decoded) simp_all
next
  assume a: "isupper_c c \<and> 0 \<le> num \<and> num < 82595524"
  then have u: "toupper_c c = of_char c" "isalpha_c c"
    by (auto simp: toupper_c_def isalpha_c_def isupper_c_def islower_c_def)
  have e: "(of_char c :: int) = int (of_char c :: nat)" by (rule of_nat_of_char [symmetric])
  from a have "65 \<le> (of_char c :: int)" "(of_char c :: int) \<le> 90"
    unfolding e isupper_c_def by linarith+
  with a have "int32_wrap (num * 26 + (of_char c - 65 + 1)) = num * 26 + (of_char c - 65 + 1)"
    by (intro int32_wrap_id) simp_all
  with u show "col_to_num_loop num (c # cs) = col_to_num_loop (num * 26 + (of_char c - 65 + 1)) cs"
    by simp
qed (code_simp+)

theorem column_letters_roundtrip_witness:
  "col_to_letters (16384 - 1) 8 = ''XFD'' \<and> col_to_num (col_to_letters (16384 - 1) 8) = 16384
   \<and> col_to_num_loop 1 ''B'' = 1 * 26 + 2"
  using column_letters_roundtrip [of 16384 "CHR ''B''" 1 "[]"]
  by (simp add: isupper_c_def) code_simp

section \<open>Rows of the grid\<close>

subsection \<open>Dense rows\<close>

lemma row_width_snoc: "row_width (kvs @ [kv]) = max (row_width kvs) (Suc (fst kv))"
  by (simp add: row_width_def)

lemma row_width_Nil: "row_width [] = 0"
  by (simp add: row_width_def)

lemma key_less_row_width: "(k, v) \<in> set kvs \<Longrightarrow> k < row_width kvs"
  by (induction kvs rule: rev_induct) (auto simp: row_width_snoc)

lemma map_of_rev_beyond: "row_width kvs \<le> i \<Longrightarrow> map_of (rev kvs) i = None"
proof -
  assume w: "row_width kvs \<le> i"
  have "i \<notin> fst ` set (rev kvs)"
  proof
    assume "i \<in> fst ` set (rev kvs)"
    then obtain v where "(i, v) \<in> set kvs" by auto
    from key_less_row_width [OF this] w show False by simp
  qed
  then show ?thesis by (simp add: map_of_eq_None_iff)
qed

lemma length_grid_row: "length (grid_row d kvs) = row_width kvs"
  by (simp add: grid_row_def)

lemma grid_row_nth:
  "i < row_width kvs \<Longrightarrow>
   grid_row d kvs ! i = (case map_of (rev kvs) i of None \<Rightarrow> d | Some x \<Rightarrow> x)"
  by (simp add: grid_row_def)

lemma length_put_cell: "length (put_cell d row kv) = max (length row) (Suc (fst kv))"
  by (simp add: put_cell_def)

lemma put_cell_nth:
  "i < max (length row) (Suc (fst kv)) \<Longrightarrow>
   put_cell d row kv ! i = (if i = fst kv then snd kv else if i < length row then row ! i else d)"
  by (auto simp: put_cell_def nth_append nth_list_update)

lemma grid_row_snoc: "grid_row d (kvs @ [kv]) = put_cell d (grid_row d kvs) kv"
proof (rule nth_equalityI)
  show "length (grid_row d (kvs @ [kv])) = length (put_cell d (grid_row d kvs) kv)"
    by (simp add: length_grid_row length_put_cell row_width_snoc)
next
  fix i
  assume "i < length (grid_row d (kvs @ [kv]))"
  then have i: "i < max (row_width kvs) (Suc (fst kv))"
    by (simp add: length_grid_row row_width_snoc)
  then have l: "grid_row d (kvs @ [kv]) ! i =
      (case map_of (rev (kvs @ [kv])) i of None \<Rightarrow> d | Some x \<Rightarrow> x)"
    by (intro grid_row_nth) (simp add: row_width_snoc)
  from i have r: "put_cell d (grid_row d kvs) kv ! i =
      (if i = fst kv then snd kv else if i < row_width kvs then grid_row d kvs ! i else d)"
    using put_cell_nth [of i "grid_row d kvs" kv d] by (simp add: length_grid_row)
  show "grid_row d (kvs @ [kv]) ! i = put_cell d (grid_row d kvs) kv ! i"
  proof (cases "i = fst kv")
    case True
    then have "map_of (rev (kvs @ [kv])) i = Some (snd kv)" by (cases kv) simp
    with l r True show ?thesis by simp
  next
    case False
    then have m: "map_of (rev (kvs @ [kv])) i = map_of (rev kvs) i" by (cases kv) simp
    show ?thesis
    proof (cases "i < row_width kvs")
      case True
      with l r m False show ?thesis by (simp add: grid_row_nth)
    next
      case False
      then have "map_of (rev kvs) i = None" by (intro map_of_rev_beyond) simp
      with l r m False \<open>i \<noteq> fst kv\<close> show ?thesis by simp
    qed
  qed
qed

lemma foldl_put_cell: "foldl (put_cell d) [] kvs = grid_row d kvs"
proof (induction kvs rule: rev_induct)
  case Nil
  show ?case by (simp add: grid_row_def row_width_def)
next
  case (snoc kv kvs)
  then show ?case by (simp add: grid_row_snoc)
qed

lemma map_of_rev_last:
  "c \<notin> fst ` set ys \<Longrightarrow> map_of (rev (xs @ (c, v) # ys)) c = Some v"
proof -
  assume "c \<notin> fst ` set ys"
  then have "map_of (rev ys) c = None" by (simp add: map_of_eq_None_iff)
  then show ?thesis by (simp add: map_add_def)
qed

subsection \<open>The row buffer of the part-001 parser\<close>

lemma rowcap_loop_ge: "0 < c \<Longrightarrow> n \<le> rowcap_loop c n \<and> c \<le> rowcap_loop c n"
proof (induction c n rule: rowcap_loop.induct)
  case (1 newcap n)
  show ?case
  proof (cases "newcap < n \<and> 0 < newcap")
    case True
    with 1 have "n \<le> rowcap_loop (newcap * 2) n \<and> newcap * 2 \<le> rowcap_loop (newcap * 2) n"
      by simp
    with True show ?thesis by (subst (1 2) rowcap_loop.simps) simp
  next
    case False
    with "1.prems" show ?thesis by (subst (1 2) rowcap_loop.simps) auto
  qed
qed

lemma ensure_rowcap_rowbuf:
  "\<exists>k. rowbuf (ensure_rowcap ctx n) = rowbuf ctx @ replicate k None \<and> n \<le> length (rowbuf ctx) + k"
proof (cases "n \<le> length (rowbuf ctx)")
  case True
  then have "rowbuf (ensure_rowcap ctx n) = rowbuf ctx @ replicate 0 None \<and> n \<le> length (rowbuf ctx) + 0"
    by (simp add: ensure_rowcap_def)
  then show ?thesis by blast
next
  case False
  let ?c = "if length (rowbuf ctx) \<noteq> 0 then length (rowbuf ctx) else 16"
  have "0 < ?c" by simp
  from rowcap_loop_ge [OF this, of n]
  have g: "n \<le> rowcap_loop ?c n" "length (rowbuf ctx) \<le> rowcap_loop ?c n" by auto
  from False have "rowbuf (ensure_rowcap ctx n) =
      rowbuf ctx @ replicate (rowcap_loop ?c n - length (rowbuf ctx)) None"
    by (simp add: ensure_rowcap_def Let_def)
  moreover from g have "n \<le> length (rowbuf ctx) + (rowcap_loop ?c n - length (rowbuf ctx))"
    by simp
  ultimately show ?thesis by blast
qed

lemma ensure_rowcap_fields:
  "shared (ensure_rowcap ctx n) = shared ctx"
  "in_v (ensure_rowcap ctx n) = in_v ctx"
  "in_t (ensure_rowcap ctx n) = in_t ctx"
  "in_is (ensure_rowcap ctx n) = in_is ctx"
  "in_c (ensure_rowcap ctx n) = in_c ctx"
  "cur_cell_ref (ensure_rowcap ctx n) = cur_cell_ref ctx"
  "cur_cell_type (ensure_rowcap ctx n) = cur_cell_type ctx"
  "cur_text (ensure_rowcap ctx n) = cur_text ctx"
  "current_row (ensure_rowcap ctx n) = current_row ctx"
  "maxcol (ensure_rowcap ctx n) = maxcol ctx"
  "emitted (ensure_rowcap ctx n) = emitted ctx"
  by (simp_all add: ensure_rowcap_def Let_def)

lemma cell_val_ensure_rowcap: "cell_val (ensure_rowcap ctx n) = cell_val ctx"
  by (simp add: cell_val_def ensure_rowcap_fields Let_def)

lemma sheet_end_c_rowbuf:
  "\<exists>k. rowbuf (sheet_end ctx ''c'') = (rowbuf ctx @ replicate k None)[cell_colidx ctx := Some (cell_val ctx)]
       \<and> cell_colidx ctx < length (rowbuf ctx) + k"
proof -
  from ensure_rowcap_rowbuf [of ctx "cell_colidx ctx + 1"]
  obtain k where k: "rowbuf (ensure_rowcap ctx (cell_colidx ctx + 1)) = rowbuf ctx @ replicate k None"
    "cell_colidx ctx + 1 \<le> length (rowbuf ctx) + k" by blast
  then have "rowbuf (sheet_end ctx ''c'') = (rowbuf ctx @ replicate k None)[cell_colidx ctx := Some (cell_val ctx)]"
    by (simp add: sheet_end_def Let_def cell_val_ensure_rowcap)
  with k(2) show ?thesis by auto
qed

lemma sheet_end_c_fields:
  "maxcol (sheet_end ctx ''c'') = max (maxcol ctx) (Suc (cell_colidx ctx))"
  "emitted (sheet_end ctx ''c'') = emitted ctx"
  "shared (sheet_end ctx ''c'') = shared ctx"
  "current_row (sheet_end ctx ''c'') = current_row ctx"
  "in_v (sheet_end ctx ''c'') = False"
  "in_is (sheet_end ctx ''c'') = False"
  "in_c (sheet_end ctx ''c'') = False"
  "in_t (sheet_end ctx ''c'') = in_t ctx"
  "cur_text (sheet_end ctx ''c'') = []"
  by (simp_all add: sheet_end_def Let_def ensure_rowcap_fields max_def)

lemma sheet_end_c_view:
  assumes "row_inv ctx"
  shows "row_inv (sheet_end ctx ''c'')"
    and "row_view (sheet_end ctx ''c'') = put_cell None (row_view ctx) (cell_colidx ctx, Some (cell_val ctx))"
proof -
  let ?c = "cell_colidx ctx" and ?v = "Some (cell_val ctx)"
  let ?m = "maxcol ctx" and ?b = "rowbuf ctx"
  from sheet_end_c_rowbuf [of ctx] obtain k where
    rb: "rowbuf (sheet_end ctx ''c'') = (?b @ replicate k None)[?c := ?v]"
    and ck: "?c < length ?b + k" by blast
  have mc: "maxcol (sheet_end ctx ''c'') = max ?m (Suc ?c)" by (rule sheet_end_c_fields)
  from assms have m: "?m \<le> length ?b"
    and z0: "\<forall>n<length ?b - ?m. ?b ! (?m + n) = None"
    by (auto simp: row_inv_def list_all_length)
  have z: "?b ! i = None" if "?m \<le> i" "i < length ?b" for i
  proof -
    from that have "i - ?m < length ?b - ?m" by simp
    with z0 have "?b ! (?m + (i - ?m)) = None" by blast
    with that show ?thesis by simp
  qed
  have len: "length (rowbuf (sheet_end ctx ''c'')) = length ?b + k" by (simp add: rb)
  show "row_inv (sheet_end ctx ''c'')"
    unfolding row_inv_def list_all_length
  proof (intro conjI allI impI)
    from m ck show "maxcol (sheet_end ctx ''c'') \<le> length (rowbuf (sheet_end ctx ''c''))"
      by (simp add: mc len)
  next
    fix i
    assume "i < length (drop (maxcol (sheet_end ctx ''c'')) (rowbuf (sheet_end ctx ''c'')))"
    then have i: "max ?m (Suc ?c) + i < length ?b + k" by (simp add: mc len)
    have "drop (maxcol (sheet_end ctx ''c'')) (rowbuf (sheet_end ctx ''c'')) ! i
        = rowbuf (sheet_end ctx ''c'') ! (maxcol (sheet_end ctx ''c'') + i)"
      using i m ck by (intro nth_drop) (simp add: mc len)
    also have "\<dots> = (?b @ replicate k None)[?c := ?v] ! (max ?m (Suc ?c) + i)"
      by (simp only: mc rb)
    also have "\<dots> = (?b @ replicate k None) ! (max ?m (Suc ?c) + i)"
      by (intro nth_list_update_neq) simp
    also have "\<dots> = None"
      using i z [of "max ?m (Suc ?c) + i"] by (auto simp: nth_append)
    finally show "drop (maxcol (sheet_end ctx ''c'')) (rowbuf (sheet_end ctx ''c'')) ! i = None" .
  qed
  show "row_view (sheet_end ctx ''c'') = put_cell None (row_view ctx) (?c, ?v)"
  proof (rule nth_equalityI)
    from m ck show "length (row_view (sheet_end ctx ''c'')) = length (put_cell None (row_view ctx) (?c, ?v))"
      by (simp add: row_view_def mc len length_put_cell)
  next
    fix i
    assume "i < length (row_view (sheet_end ctx ''c''))"
    with m ck have i: "i < max ?m (Suc ?c)" by (simp add: row_view_def mc len)
    with m ck have il: "i < length ?b + k" by auto
    from i have "row_view (sheet_end ctx ''c'') ! i = (?b @ replicate k None)[?c := ?v] ! i"
      by (simp add: row_view_def mc rb)
    also have "\<dots> = (if i = ?c then ?v else if i < ?m then ?b ! i else None)"
      using il m z [of i] by (auto simp: nth_list_update nth_append)
    also have "\<dots> = put_cell None (row_view ctx) (?c, ?v) ! i"
      using i m put_cell_nth [of i "row_view ctx" "(?c, ?v)" None]
      by (simp add: row_view_def min_absorb2)
    finally show "row_view (sheet_end ctx ''c'') ! i = put_cell None (row_view ctx) (?c, ?v) ! i" .
  qed
qed


subsection \<open>Running the events of a cell and of a row\<close>

lemma sheet_start_simps:
  "sheet_start ctx ''v'' atts = ctx\<lparr>in_v := True\<rparr>"
  "sheet_start ctx ''is'' atts = ctx\<lparr>in_is := True\<rparr>"
  "sheet_start ctx ''t'' atts = ctx\<lparr>in_t := True\<rparr>"
  by (simp_all add: sheet_start_def)

lemma sheet_end_simps:
  "sheet_end ctx ''v'' = ctx\<lparr>in_v := False\<rparr>"
  "sheet_end ctx ''t'' = ctx\<lparr>in_t := False\<rparr>"
  "sheet_end ctx ''is'' = ctx\<lparr>in_is := False\<rparr>"
  by (simp_all add: sheet_end_def)

lemma chars_run:
  "in_v ctx \<or> in_t ctx \<Longrightarrow>
   foldl sheet_event ctx (map CharData runs) = ctx\<lparr>cur_text := cur_text ctx @ concat runs\<rparr>"
proof (induction runs arbitrary: ctx)
  case Nil
  then show ?case by simp
next
  case (Cons r runs)
  from Cons.prems have s: "sheet_event ctx (CharData r) = ctx\<lparr>cur_text := cur_text ctx @ r\<rparr>"
    by (simp add: sheet_char_def)
  from Cons.prems have "in_v (ctx\<lparr>cur_text := cur_text ctx @ r\<rparr>) \<or> in_t (ctx\<lparr>cur_text := cur_text ctx @ r\<rparr>)"
    by simp
  from Cons.IH [OF this] s show ?case by simp
qed

lemma body_run:
  fixes ctx :: sheet_parser_ctx and bd :: cell_body
  assumes "\<not> in_v ctx" "\<not> in_t ctx"
  defines "b \<equiv> foldl sheet_event ctx (body_events bd)"
  shows "cur_text b = cur_text ctx @ body_text bd"
    and "\<not> in_v b" and "\<not> in_t b"
    and "cur_cell_ref b = cur_cell_ref ctx" and "cur_cell_type b = cur_cell_type ctx"
    and "shared b = shared ctx" and "rowbuf b = rowbuf ctx" and "maxcol b = maxcol ctx"
    and "emitted b = emitted ctx" and "current_row b = current_row ctx"
proof -
  have "cur_text b = cur_text ctx @ body_text bd \<and> \<not> in_v b \<and> \<not> in_t b
      \<and> cur_cell_ref b = cur_cell_ref ctx \<and> cur_cell_type b = cur_cell_type ctx
      \<and> shared b = shared ctx \<and> rowbuf b = rowbuf ctx \<and> maxcol b = maxcol ctx
      \<and> emitted b = emitted ctx \<and> current_row b = current_row ctx"
  proof (cases bd)
    case NoBody
    with assms(1,2) show ?thesis by (simp add: b_def body_events_def body_text_def)
  next
    case (ValueBody runs)
    have "foldl sheet_event (ctx\<lparr>in_v := True\<rparr>) (map CharData runs)
        = ctx\<lparr>in_v := True\<rparr>\<lparr>cur_text := cur_text (ctx\<lparr>in_v := True\<rparr>) @ concat runs\<rparr>"
      by (rule chars_run) simp
    with ValueBody assms(1,2) show ?thesis
      by (simp add: b_def body_events_def body_text_def sheet_start_simps sheet_end_simps)
  next
    case (InlineBody runs)
    have "foldl sheet_event (ctx\<lparr>in_is := True, in_t := True\<rparr>) (map CharData runs)
        = ctx\<lparr>in_is := True, in_t := True\<rparr>\<lparr>cur_text := cur_text (ctx\<lparr>in_is := True, in_t := True\<rparr>) @ concat runs\<rparr>"
      by (rule chars_run) simp
    with InlineBody assms(1,2) show ?thesis
      by (simp add: b_def body_events_def body_text_def sheet_start_simps sheet_end_simps)
  qed
  then show "cur_text b = cur_text ctx @ body_text bd"
    and "\<not> in_v b" and "\<not> in_t b"
    and "cur_cell_ref b = cur_cell_ref ctx" and "cur_cell_type b = cur_cell_type ctx"
    and "shared b = shared ctx" and "rowbuf b = rowbuf ctx" and "maxcol b = maxcol ctx"
    and "emitted b = emitted ctx" and "current_row b = current_row ctx"
    by simp_all
qed

lemma cell_start_run:
  "sheet_start ctx ''c'' (cell_atts d) =
   ctx\<lparr>in_c := True,
       cur_cell_ref := cur_cell_ref (decl_ctx ss d),
       cur_cell_type := cur_cell_type (decl_ctx ss d),
       cur_text := []\<rparr>"
  by (cases "cd_ref d"; cases "cd_type d")
     (simp_all add: sheet_start_def cell_atts_def decl_ctx_def)

lemma cell_colidx_cong: "cur_cell_ref a = cur_cell_ref b \<Longrightarrow> cell_colidx a = cell_colidx b"
  by (simp add: cell_colidx_def)

lemma cell_val_cong:
  "cur_cell_type a = cur_cell_type b \<Longrightarrow> cur_text a = cur_text b \<Longrightarrow> shared a = shared b \<Longrightarrow>
   cell_val a = cell_val b"
  by (simp add: cell_val_def Let_def)

lemma ensure_rowcap_rowbuf_cong:
  "rowbuf a = rowbuf b \<Longrightarrow> rowbuf (ensure_rowcap a n) = rowbuf (ensure_rowcap b n)"
  by (simp add: ensure_rowcap_def Let_def)

lemma sheet_end_c_rowbuf_eq:
  "rowbuf (sheet_end ctx ''c'') =
   (rowbuf (ensure_rowcap ctx (cell_colidx ctx + 1)))[cell_colidx ctx := Some (cell_val ctx)]"
  by (simp add: sheet_end_def Let_def cell_val_ensure_rowcap)

lemma sheet_end_c_fields2:
  "cur_cell_ref (sheet_end ctx ''c'') = cur_cell_ref ctx"
  "cur_cell_type (sheet_end ctx ''c'') = cur_cell_type ctx"
  "sheet_parser_ctx.more (sheet_end ctx ''c'') = sheet_parser_ctx.more ctx"
  by (simp_all add: sheet_end_def Let_def ensure_rowcap_def)

lemma sheet_end_c_cong:
  assumes "cur_cell_ref a = cur_cell_ref b" "cur_cell_type a = cur_cell_type b"
    "cur_text a = cur_text b" "shared a = shared b" "rowbuf a = rowbuf b" "maxcol a = maxcol b"
    "emitted a = emitted b" "current_row a = current_row b" "in_t a = in_t b"
  shows "sheet_end a ''c'' = sheet_end b ''c''"
proof -
  have c: "cell_colidx a = cell_colidx b"
    by (rule cell_colidx_cong) (rule assms(1))
  have v: "cell_val a = cell_val b"
    by (rule cell_val_cong) (rule assms(2) assms(3) assms(4))+
  from assms(5) have r: "rowbuf (ensure_rowcap a (Suc (cell_colidx b))) = rowbuf (ensure_rowcap b (Suc (cell_colidx b)))"
    by (rule ensure_rowcap_rowbuf_cong)
  show ?thesis
    by (rule sheet_parser_ctx.equality)
       (simp_all add: sheet_end_c_fields sheet_end_c_fields2 sheet_end_c_rowbuf_eq c v r assms)
qed

lemma cell_run:
  assumes "\<not> in_v ctx" "\<not> in_t ctx"
  shows "foldl sheet_event ctx (cell_events d) = sheet_end (at_cell_end ctx (shared ctx) d) ''c''"
proof -
  define a where "a = sheet_start ctx ''c'' (cell_atts d)"
  have a: "a = ctx\<lparr>in_c := True,
       cur_cell_ref := cur_cell_ref (decl_ctx (shared ctx) d),
       cur_cell_type := cur_cell_type (decl_ctx (shared ctx) d),
       cur_text := []\<rparr>"
    unfolding a_def by (rule cell_start_run)
  with assms have f: "\<not> in_v a" "\<not> in_t a" by simp_all
  define b where "b = foldl sheet_event a (body_events (cd_body d))"
  note bf = body_run [OF f, of "cd_body d", folded b_def]
  have "foldl sheet_event ctx (cell_events d) = sheet_end b ''c''"
    by (simp add: cell_events_def b_def a_def)
  also have "\<dots> = sheet_end (at_cell_end ctx (shared ctx) d) ''c''"
  proof (rule sheet_end_c_cong)
    show "cur_cell_ref b = cur_cell_ref (at_cell_end ctx (shared ctx) d)"
      by (simp add: bf a at_cell_end_def)
    show "cur_cell_type b = cur_cell_type (at_cell_end ctx (shared ctx) d)"
      by (simp add: bf a at_cell_end_def)
    show "cur_text b = cur_text (at_cell_end ctx (shared ctx) d)"
      by (simp add: bf a at_cell_end_def decl_ctx_def)
    show "shared b = shared (at_cell_end ctx (shared ctx) d)"
      by (simp add: bf a at_cell_end_def)
    show "rowbuf b = rowbuf (at_cell_end ctx (shared ctx) d)"
      by (simp add: bf a at_cell_end_def)
    show "maxcol b = maxcol (at_cell_end ctx (shared ctx) d)"
      by (simp add: bf a at_cell_end_def)
    show "emitted b = emitted (at_cell_end ctx (shared ctx) d)"
      by (simp add: bf a at_cell_end_def)
    show "current_row b = current_row (at_cell_end ctx (shared ctx) d)"
      by (simp add: bf a at_cell_end_def)
    show "in_t b = in_t (at_cell_end ctx (shared ctx) d)"
      using bf(3) assms(2) by (simp add: at_cell_end_def)
  qed
  finally show ?thesis .
qed

lemma at_cell_end_fields:
  "cell_colidx (at_cell_end ctx (shared ctx) d) = decl_colidx d"
  "cell_val (at_cell_end ctx (shared ctx) d) = decl_val (shared ctx) d"
  "row_inv (at_cell_end ctx ss d) = row_inv ctx"
  "row_view (at_cell_end ctx ss d) = row_view ctx"
  "emitted (at_cell_end ctx ss d) = emitted ctx"
  "shared (at_cell_end ctx ss d) = shared ctx"
  "current_row (at_cell_end ctx ss d) = current_row ctx"
  "in_t (at_cell_end ctx ss d) = in_t ctx"
proof -
  show "cell_colidx (at_cell_end ctx (shared ctx) d) = decl_colidx d"
    unfolding decl_colidx_def by (rule cell_colidx_cong) (simp add: at_cell_end_def decl_ctx_def)
  show "cell_val (at_cell_end ctx (shared ctx) d) = decl_val (shared ctx) d"
    unfolding decl_val_def
    by (rule cell_val_cong) (simp_all add: at_cell_end_def decl_ctx_def sheet_parser_init_def)
qed (simp_all add: at_cell_end_def row_inv_def row_view_def)

lemma cell_run_view:
  fixes ctx :: sheet_parser_ctx and d :: cell_decl
  assumes "\<not> in_v ctx" "\<not> in_t ctx" "row_inv ctx"
  defines "ctx' \<equiv> foldl sheet_event ctx (cell_events d)"
  shows "row_inv ctx'"
    and "row_view ctx' = put_cell None (row_view ctx) (decl_colidx d, Some (decl_val (shared ctx) d))"
    and "\<not> in_v ctx'" and "\<not> in_t ctx'"
    and "emitted ctx' = emitted ctx" and "shared ctx' = shared ctx"
    and "current_row ctx' = current_row ctx"
proof -
  let ?x = "at_cell_end ctx (shared ctx) d"
  have c: "ctx' = sheet_end ?x ''c''"
    unfolding ctx'_def by (rule cell_run [OF assms(1,2)])
  from assms(3) have i: "row_inv ?x" by (simp add: at_cell_end_fields)
  from sheet_end_c_view(1) [OF i] c show "row_inv ctx'" by simp
  from sheet_end_c_view(2) [OF i] c
  show "row_view ctx' = put_cell None (row_view ctx) (decl_colidx d, Some (decl_val (shared ctx) d))"
    by (simp add: at_cell_end_fields)
  from c show "\<not> in_v ctx'" by (simp add: sheet_end_c_fields)
  from c assms(2) show "\<not> in_t ctx'" by (simp add: sheet_end_c_fields at_cell_end_fields)
  from c show "emitted ctx' = emitted ctx" by (simp add: sheet_end_c_fields at_cell_end_fields)
  from c show "shared ctx' = shared ctx" by (simp add: sheet_end_c_fields at_cell_end_fields)
  from c show "current_row ctx' = current_row ctx" by (simp add: sheet_end_c_fields at_cell_end_fields)
qed

lemma cells_run_view:
  fixes ctx :: sheet_parser_ctx and ds :: "cell_decl list"
  assumes "\<not> in_v ctx" "\<not> in_t ctx" "row_inv ctx"
  defines "ctx' \<equiv> foldl sheet_event ctx (concat (map cell_events ds))"
  shows "row_inv ctx' \<and> row_view ctx' = foldl (put_cell None) (row_view ctx) (decl_kvs (shared ctx) ds)
       \<and> \<not> in_v ctx' \<and> \<not> in_t ctx' \<and> emitted ctx' = emitted ctx \<and> shared ctx' = shared ctx
       \<and> current_row ctx' = current_row ctx"
  using assms(1,2,3) unfolding ctx'_def
proof (induction ds arbitrary: ctx)
  case Nil
  then show ?case by (simp add: decl_kvs_def)
next
  case (Cons d ds)
  let ?c = "foldl sheet_event ctx (cell_events d)"
  note v = cell_run_view [OF Cons.prems, of d]
  from Cons.IH [OF v(3) v(4) v(1)] v(2,5,6,7)
  show ?case by (simp add: decl_kvs_def)
qed

lemma row_run:
  fixes ctx :: sheet_parser_ctx and ds :: "cell_decl list" and r :: string
  assumes "\<not> in_v ctx" "\<not> in_t ctx"
  defines "ctx' \<equiv> foldl sheet_event ctx (row_events r ds)"
  shows "emitted ctx' = emitted ctx @ [\<lparr>rownum = atoi r, cols = grid_row None (decl_kvs (shared ctx) ds)\<rparr>]"
    and "\<not> in_v ctx'" and "\<not> in_t ctx'" and "shared ctx' = shared ctx"
proof -
  let ?a = "sheet_start ctx ''row'' [(''r'', r)]"
  have a: "?a = ctx\<lparr>current_row := atoi r, rowbuf := map (\<lambda>_. None) (rowbuf ctx), maxcol := 0\<rparr>"
    by (simp add: sheet_start_def)
  have ai: "row_inv ?a" by (simp add: a row_inv_def list_all_length)
  have av: "row_view ?a = []" by (simp add: a row_view_def)
  from assms(1,2) have af: "\<not> in_v ?a" "\<not> in_t ?a" by (simp_all add: a)
  let ?b = "foldl sheet_event ?a (concat (map cell_events ds))"
  from cells_run_view [OF af ai, of ds]
  have b: "row_view ?b = grid_row None (decl_kvs (shared ctx) ds)"
    "\<not> in_v ?b" "\<not> in_t ?b" "emitted ?b = emitted ctx" "shared ?b = shared ctx"
    "current_row ?b = atoi r"
    by (simp_all add: av foldl_put_cell) (simp_all add: a)
  have c: "ctx' = sheet_end ?b ''row''"
    unfolding ctx'_def by (simp add: row_events_def)
  from c b show "emitted ctx' = emitted ctx @ [\<lparr>rownum = atoi r, cols = grid_row None (decl_kvs (shared ctx) ds)\<rparr>]"
    by (simp add: sheet_end_def sheet_rows_emit_def row_view_def)
  from c b show "\<not> in_v ctx'" "\<not> in_t ctx'" "shared ctx' = shared ctx"
    by (simp_all add: sheet_end_def)
qed

lemma rows_run:
  assumes "\<not> in_v ctx" "\<not> in_t ctx"
  shows "emitted (foldl sheet_event ctx (sheet_events rws)) =
         emitted ctx @ map (\<lambda>rw. \<lparr>rownum = atoi (fst rw), cols = grid_row None (decl_kvs (shared ctx) (snd rw))\<rparr>) rws"
  using assms
proof (induction rws arbitrary: ctx)
  case Nil
  then show ?case by (simp add: sheet_events_def)
next
  case (Cons rw rws)
  note r = row_run [OF Cons.prems, of "fst rw" "snd rw"]
  from Cons.IH [OF r(2) r(3)] r(1,4)
  show ?case by (simp add: sheet_events_def)
qed

lemma parse_sheet_rows:
  "parse_sheet ss (sheet_events rws) =
   map (\<lambda>rw. \<lparr>rownum = atoi (fst rw), cols = grid_row None (decl_kvs ss (snd rw))\<rparr>) rws"
  unfolding parse_sheet_def
  by (subst rows_run) (simp_all add: sheet_parser_init_def)

section \<open>The end of a cell in the part-001 parser\<close>

lemma colname_to_index_no_letter:
  "(case ref of [] \<Rightarrow> True | c # _ \<Rightarrow> \<not> isalpha_c c) \<Longrightarrow> colname_to_index (colletters ref) = - 1"
proof (cases ref)
  case Nil
  then show ?thesis by (simp add: colletters_def colname_to_index_def int32_wrap_def)
next
  case (Cons c cs)
  assume "case ref of [] \<Rightarrow> True | c # _ \<Rightarrow> \<not> isalpha_c c"
  with Cons have n: "\<not> isupper_c c" "\<not> islower_c c" by (simp_all add: isalpha_c_def)
  have "colname_to_index_loop 0 (colletters ref) = 0"
  proof (cases "isdigit_c c")
    case True
    with Cons show ?thesis by (simp add: colletters_def)
  next
    case False
    with Cons n show ?thesis by (simp add: colletters_def)
  qed
  then show ?thesis by (simp add: colname_to_index_def int32_wrap_def)
qed

lemma sheet_end_row_emitted:
  "emitted (sheet_end c ''row'') =
   emitted c @ [\<lparr>rownum = current_row c, cols = take (maxcol c) (rowbuf c)\<rparr>]"
  by (simp add: sheet_end_def sheet_rows_emit_def)

lemma sheet_end_c_in_bounds: "cell_colidx ctx < length (rowbuf (sheet_end ctx ''c''))"
  using sheet_end_c_rowbuf [of ctx] by auto

lemma sheet_end_c_stored: "rowbuf (sheet_end ctx ''c'') ! cell_colidx ctx = Some (cell_val ctx)"
  using sheet_end_c_rowbuf [of ctx] by auto

lemma sheet_end_c_others:
  "i \<noteq> cell_colidx ctx \<Longrightarrow> i < length (rowbuf ctx) \<Longrightarrow>
   rowbuf (sheet_end ctx ''c'') ! i = rowbuf ctx ! i"
  using sheet_end_c_rowbuf [of ctx] by (auto simp: nth_append)

text \<open>
  C9. Cell-reference handling is total. For every parser state at the end of a \<open>c\<close>
  element the index the value is stored at lies inside the row buffer. When the
  reference has no leading column letter (it is empty, or its first byte is not a
  letter) the decoder returns \<open>-1\<close>, the index is clamped to 0 (column A), the cell's
  value is stored there, the row then has at least one column, and every other entry of
  the buffer is left as it was.
\<close>

theorem cell_without_column_letters_is_stored_in_column_A:
  "cell_colidx ctx < length (rowbuf (sheet_end ctx ''c''))
   \<and> ((case cur_cell_ref ctx of [] \<Rightarrow> True | c # _ \<Rightarrow> \<not> isalpha_c c) \<longrightarrow>
        colname_to_index (colletters (cur_cell_ref ctx)) = - 1
        \<and> cell_colidx ctx = 0
        \<and> rowbuf (sheet_end ctx ''c'') ! 0 = Some (cell_val ctx)
        \<and> 1 \<le> maxcol (sheet_end ctx ''c'')
        \<and> (\<forall>i. 0 < i \<and> i < length (rowbuf ctx) \<longrightarrow> rowbuf (sheet_end ctx ''c'') ! i = rowbuf ctx ! i))"
proof (intro conjI impI allI)
  show "cell_colidx ctx < length (rowbuf (sheet_end ctx ''c''))" by (rule sheet_end_c_in_bounds)
next
  assume a: "case cur_cell_ref ctx of [] \<Rightarrow> True | c # _ \<Rightarrow> \<not> isalpha_c c"
  from colname_to_index_no_letter [OF a]
  show d: "colname_to_index (colletters (cur_cell_ref ctx)) = - 1" .
  then show z: "cell_colidx ctx = 0" by (simp add: cell_colidx_def)
  from sheet_end_c_stored [of ctx] z show "rowbuf (sheet_end ctx ''c'') ! 0 = Some (cell_val ctx)"
    by simp
  show "1 \<le> maxcol (sheet_end ctx ''c'')" by (simp add: sheet_end_c_fields)
  fix i
  assume "0 < i \<and> i < length (rowbuf ctx)"
  with z sheet_end_c_others [of i ctx] show "rowbuf (sheet_end ctx ''c'') ! i = rowbuf ctx ! i"
    by simp
qed

theorem cell_without_column_letters_is_stored_in_column_A_witness:
  "rowbuf (sheet_end ((sheet_parser_init [])\<lparr>cur_cell_ref := ''7'', cur_text := ''x'',
       rowbuf := [None, Some ''b''], maxcol := 2\<rparr>) ''c'') = [Some ''x'', Some ''b'']
   \<and> colname_to_index (colletters ''7'') = - 1"
  using cell_without_column_letters_is_stored_in_column_A
    [of "(sheet_parser_init [])\<lparr>cur_cell_ref := ''7'', cur_text := ''x'',
       rowbuf := [None, Some ''b''], maxcol := 2\<rparr>"]
  by (simp add: sheet_parser_init_def isalpha_c_def isupper_c_def islower_c_def)
     (simp add: sheet_end_def cell_colidx_def cell_val_def ensure_rowcap_def Let_def)

subsection \<open>The worksheet of the opus importer\<close>

lemma row_decls_snoc:
  "row_decls (ds @ [d]) r =
   row_decls ds r @
   (if fst d = int r + 1 \<and> fst (snd d) > 0
    then [(nat (fst (snd d) - 1), \<lparr>cv_value = snd (snd d), cv_is_null = (snd (snd d) = None)\<rparr>)]
    else [])"
  by (simp add: row_decls_def)

lemma ws_set_cell_row:
  assumes "rn > 0" "cn > 0"
  shows "row_or_empty (ws_set_cell ws rn cn v) r =
         (if r = nat (rn - 1)
          then put_cell null_cell (row_or_empty ws r) (nat (cn - 1), \<lparr>cv_value = v, cv_is_null = (v = None)\<rparr>)
          else row_or_empty ws r)"
    and "length (ws_rows ws) \<le> length (ws_rows (ws_set_cell ws rn cn v))"
    and "nat rn \<le> length (ws_rows (ws_set_cell ws rn cn v))"
proof -
  let ?rows = "ws_rows ws"
  let ?k = "nat (rn - 1)"
  let ?rows1 = "?rows @ replicate (nat (rn - int (length ?rows))) []"
  from assms have k: "?k < length ?rows1" by simp
  have r1: "?rows1 ! ?k = row_or_empty ws ?k"
    using k by (simp add: row_or_empty_def nth_append)
  let ?row = "row_or_empty ws ?k"
  have pad: "nat (cn - int (length ?row)) = Suc (nat (cn - 1)) - length ?row"
    using assms by simp
  have rows': "ws_rows (ws_set_cell ws rn cn v) =
      ?rows1[?k := put_cell null_cell ?row (nat (cn - 1), \<lparr>cv_value = v, cv_is_null = (v = None)\<rparr>)]"
    by (simp add: ws_set_cell_def ws_get_row_def Let_def r1 pad put_cell_def null_cell_def)
  show "length (ws_rows ws) \<le> length (ws_rows (ws_set_cell ws rn cn v))"
    by (simp add: rows')
  from assms show "nat rn \<le> length (ws_rows (ws_set_cell ws rn cn v))"
    by (simp add: rows')
  show "row_or_empty (ws_set_cell ws rn cn v) r =
         (if r = nat (rn - 1)
          then put_cell null_cell (row_or_empty ws r) (nat (cn - 1), \<lparr>cv_value = v, cv_is_null = (v = None)\<rparr>)
          else row_or_empty ws r)"
  proof (cases "r = ?k")
    case True
    with k show ?thesis by (simp add: row_or_empty_def rows')
  next
    case False
    then show ?thesis
      by (auto simp: row_or_empty_def rows' nth_append)
  qed
qed

lemma ws_store_row:
  "row_or_empty (ws_store ws d) r =
   (if fst d = int r + 1 \<and> fst (snd d) > 0
    then put_cell null_cell (row_or_empty ws r)
           (nat (fst (snd d) - 1), \<lparr>cv_value = snd (snd d), cv_is_null = (snd (snd d) = None)\<rparr>)
    else row_or_empty ws r)"
proof (cases d)
  case (fields rn cn v)
  show ?thesis
  proof (cases "rn > 0 \<and> cn > 0")
    case True
    then have e: "(rn = int r + 1) = (r = nat (rn - 1))" by auto
    from True ws_set_cell_row(1) [of rn cn ws v r] fields e show ?thesis
      by (simp add: ws_store_def)
  next
    case False
    with fields show ?thesis by (auto simp: ws_store_def)
  qed
qed

lemma ws_rows_grid:
  "row_or_empty (foldl ws_store ws_init ds) r = grid_row null_cell (row_decls ds r)"
proof (induction ds rule: rev_induct)
  case Nil
  show ?case by (simp add: row_or_empty_def ws_init_def row_decls_def grid_row_def row_width_def)
next
  case (snoc d ds)
  then show ?case
    by (simp add: ws_store_row row_decls_snoc grid_row_snoc)
qed

lemma ws_store_length:
  "length (ws_rows ws) \<le> length (ws_rows (ws_store ws d))"
  "fst d > 0 \<Longrightarrow> fst (snd d) > 0 \<Longrightarrow> nat (fst d) \<le> length (ws_rows (ws_store ws d))"
proof -
  obtain rn cn v where d: "d = (rn, cn, v)" by (cases d)
  show "length (ws_rows ws) \<le> length (ws_rows (ws_store ws d))"
    using ws_set_cell_row(2) [of rn cn ws v] by (simp add: d ws_store_def)
  assume "fst d > 0" "fst (snd d) > 0"
  then show "nat (fst d) \<le> length (ws_rows (ws_store ws d))"
    using ws_set_cell_row(3) [of rn cn ws v] by (simp add: d ws_store_def)
qed

lemma ws_rows_length_mono:
  "length (ws_rows ws) \<le> length (ws_rows (foldl ws_store ws ds))"
proof (induction ds arbitrary: ws)
  case Nil
  show ?case by simp
next
  case (Cons d ds)
  from ws_store_length(1) [of ws d] Cons [of "ws_store ws d"] show ?case by simp
qed

lemma ws_rows_reach:
  "d \<in> set ds \<Longrightarrow> fst d > 0 \<Longrightarrow> fst (snd d) > 0 \<Longrightarrow>
   nat (fst d) \<le> length (ws_rows (foldl ws_store ws ds))"
proof (induction ds arbitrary: ws)
  case Nil
  then show ?case by simp
next
  case (Cons e ds)
  show ?case
  proof (cases "d = e")
    case True
    from ws_store_length(2) [of d ws] Cons.prems ws_rows_length_mono [of "ws_store ws d" ds] True
    show ?thesis by simp
  next
    case False
    with Cons.prems have "d \<in> set ds" by simp
    from Cons.IH [OF this Cons.prems(2,3), of "ws_store ws e"] show ?thesis by simp
  qed
qed

lemma row_decls_key:
  "(k, x) \<in> set (row_decls ds r) \<Longrightarrow> \<exists>v. (int r + 1, int k + 1, v) \<in> set ds"
proof -
  assume "(k, x) \<in> set (row_decls ds r)"
  then obtain d where d: "d \<in> set ds" "fst d = int r + 1" "fst (snd d) > 0" "k = nat (fst (snd d) - 1)"
    by (auto simp: row_decls_def)
  obtain rn cn v where e: "d = (rn, cn, v)" by (cases d)
  with d(2,3,4) have "d = (int r + 1, int k + 1, v)" by simp
  with d(1) show ?thesis by blast
qed

subsection \<open>Cells that no declaration names\<close>

lemma row_decls_mem:
  "(rn, cn, v) \<in> set ds \<Longrightarrow> rn > 0 \<Longrightarrow> cn > 0 \<Longrightarrow>
   (nat (cn - 1), \<lparr>cv_value = v, cv_is_null = (v = None)\<rparr>) \<in> set (row_decls ds (nat (rn - 1)))"
  by (force simp: row_decls_def)

lemma ws_row_is_grid:
  "r < length (ws_rows (foldl ws_store ws_init ds)) \<Longrightarrow>
   ws_rows (foldl ws_store ws_init ds) ! r = grid_row null_cell (row_decls ds r)"
  using ws_rows_grid [of ds r] by (simp add: row_or_empty_def)

lemma ws_undeclared_null:
  assumes "r < length (ws_rows (foldl ws_store ws_init ds))"
    and "i < length (ws_rows (foldl ws_store ws_init ds) ! r)"
    and "\<forall>v. (int r + 1, int i + 1, v) \<notin> set ds"
  shows "ws_rows (foldl ws_store ws_init ds) ! r ! i = \<lparr>cv_value = None, cv_is_null = True\<rparr>"
proof -
  note g = ws_row_is_grid [OF assms(1)]
  from assms(2) have i: "i < row_width (row_decls ds r)" by (simp add: g length_grid_row)
  have "i \<notin> fst ` set (rev (row_decls ds r))"
  proof
    assume "i \<in> fst ` set (rev (row_decls ds r))"
    then obtain x where "(i, x) \<in> set (row_decls ds r)" by auto
    from row_decls_key [OF this] assms(3) show False by blast
  qed
  then have "map_of (rev (row_decls ds r)) i = None" by (simp add: map_of_eq_None_iff)
  with grid_row_nth [OF i, of null_cell] g show ?thesis by (simp add: null_cell_def)
qed

lemma ws_declared_present:
  assumes "(rn, cn, v) \<in> set ds" "rn > 0" "cn > 0"
  shows "nat rn \<le> length (ws_rows (foldl ws_store ws_init ds))"
    and "nat cn \<le> length (ws_rows (foldl ws_store ws_init ds) ! nat (rn - 1))"
proof -
  from ws_rows_reach [OF assms(1), of ws_init] assms(2,3)
  show l: "nat rn \<le> length (ws_rows (foldl ws_store ws_init ds))" by simp
  with assms(2) have r: "nat (rn - 1) < length (ws_rows (foldl ws_store ws_init ds))" by simp
  from key_less_row_width [OF row_decls_mem [OF assms]]
  have "nat (cn - 1) < row_width (row_decls ds (nat (rn - 1)))" .
  with assms(3) show "nat cn \<le> length (ws_rows (foldl ws_store ws_init ds) ! nat (rn - 1))"
    by (simp add: ws_row_is_grid [OF r] length_grid_row)
qed

lemma ws_example:
  "ws_rows (foldl ws_store ws_init [(1, 1, Some v1), (1, 4, Some v4)]) =
   [[\<lparr>cv_value = Some v1, cv_is_null = False\<rparr>, \<lparr>cv_value = None, cv_is_null = True\<rparr>,
     \<lparr>cv_value = None, cv_is_null = True\<rparr>, \<lparr>cv_value = Some v4, cv_is_null = False\<rparr>]]"
  by (simp add: ws_store_def ws_set_cell_def ws_get_row_def ws_init_def Let_def numeral_eq_Suc)

lemma parsed_row:
  "k < length rws \<Longrightarrow>
   parse_sheet ss (sheet_events rws) ! k =
   \<lparr>rownum = atoi (fst (rws ! k)), cols = grid_row None (decl_kvs ss (snd (rws ! k)))\<rparr>"
  by (simp add: parse_sheet_rows)

lemma parsed_undeclared_null:
  assumes "k < length rws"
    and "i < length (cols (parse_sheet ss (sheet_events rws) ! k))"
    and "list_all (\<lambda>d. decl_colidx d \<noteq> i) (snd (rws ! k))"
  shows "cols (parse_sheet ss (sheet_events rws) ! k) ! i = None"
proof -
  note p = parsed_row [OF assms(1), of ss]
  from assms(2) have i: "i < row_width (decl_kvs ss (snd (rws ! k)))"
    by (simp add: p length_grid_row)
  from assms(3) have "i \<notin> fst ` set (rev (decl_kvs ss (snd (rws ! k))))"
    by (auto simp: decl_kvs_def list_all_iff)
  then have "map_of (rev (decl_kvs ss (snd (rws ! k)))) i = None" by (simp add: map_of_eq_None_iff)
  with grid_row_nth [OF i, of None] p show ?thesis by simp
qed

lemma decl_A1_D1:
  "decl_colidx \<lparr>cd_ref = Some ''A1'', cd_type = None, cd_body = ValueBody [v]\<rparr> = 0"
  "decl_colidx \<lparr>cd_ref = Some ''D1'', cd_type = None, cd_body = ValueBody [v]\<rparr> = 3"
  "decl_val ss \<lparr>cd_ref = r, cd_type = None, cd_body = ValueBody [v]\<rparr> = v"
    apply (simp_all add: decl_colidx_def decl_val_def decl_ctx_def cell_val_def body_text_def
      sheet_parser_init_def)
   apply code_simp+
  done

lemma parsed_example:
  "parse_sheet ss (sheet_events [(''1'',
      [\<lparr>cd_ref = Some ''A1'', cd_type = None, cd_body = ValueBody [v1]\<rparr>,
       \<lparr>cd_ref = Some ''D1'', cd_type = None, cd_body = ValueBody [v4]\<rparr>])])
   = [\<lparr>rownum = 1, cols = [Some v1, None, None, Some v4]\<rparr>]"
proof -
  have a: "atoi ''1'' = 1" by code_simp
  show ?thesis
    by (simp add: parse_sheet_rows decl_kvs_def decl_A1_D1 a grid_row_def row_width_def
        upt_rec numeral_eq_Suc)
qed

text \<open>
  C1. Grid reconstruction fills gaps with explicit nulls.
  In the worksheet that \<open>ws_set_cell\<close> builds from the declared cells \<open>ds\<close> (row
  number, column number, value; both numbers 1-based): every cell of every row whose
  position no declaration names is the null cell (\<open>value = NULL\<close>, \<open>is_null = 1\<close>), and
  a row reaches at least to every column declared in it, so no index below the row's
  largest declared column is missing. A row declaring only columns 1 and 4 is the four
  cells \<open>[v1, null, null, v4]\<close>.
  In the parser with the row buffer (\<open>ensure_rowcap\<close>, unnamed/part_001), for a sheet
  given as its rows: the row emitted for row \<open>k\<close> has as many columns as one more than
  its largest declared index, and holds \<open>NULL\<close> at every index that no cell of the row
  declares; a row declaring only A and D is \<open>[v1, NULL, NULL, v4]\<close>.
\<close>

theorem gaps_are_explicit_null_cells:
  "(\<forall>r i. r < length (ws_rows (foldl ws_store ws_init ds))
         \<and> i < length (ws_rows (foldl ws_store ws_init ds) ! r)
         \<and> (\<forall>v. (int r + 1, int i + 1, v) \<notin> set ds)
       \<longrightarrow> ws_rows (foldl ws_store ws_init ds) ! r ! i = \<lparr>cv_value = None, cv_is_null = True\<rparr>)
   \<and> (\<forall>rn cn v. (rn, cn, v) \<in> set ds \<and> rn > 0 \<and> cn > 0
       \<longrightarrow> nat rn \<le> length (ws_rows (foldl ws_store ws_init ds))
         \<and> nat cn \<le> length (ws_rows (foldl ws_store ws_init ds) ! nat (rn - 1)))
   \<and> ws_rows (foldl ws_store ws_init [(1, 1, Some v1), (1, 4, Some v4)]) =
       [[\<lparr>cv_value = Some v1, cv_is_null = False\<rparr>, \<lparr>cv_value = None, cv_is_null = True\<rparr>,
         \<lparr>cv_value = None, cv_is_null = True\<rparr>, \<lparr>cv_value = Some v4, cv_is_null = False\<rparr>]]
   \<and> (\<forall>k i. k < length rws \<longrightarrow>
         length (cols (parse_sheet ss (sheet_events rws) ! k)) = row_width (decl_kvs ss (snd (rws ! k)))
         \<and> (i < length (cols (parse_sheet ss (sheet_events rws) ! k))
            \<and> list_all (\<lambda>d. decl_colidx d \<noteq> i) (snd (rws ! k))
            \<longrightarrow> cols (parse_sheet ss (sheet_events rws) ! k) ! i = None))
   \<and> parse_sheet ss (sheet_events [(''1'',
        [\<lparr>cd_ref = Some ''A1'', cd_type = None, cd_body = ValueBody [v1]\<rparr>,
         \<lparr>cd_ref = Some ''D1'', cd_type = None, cd_body = ValueBody [v4]\<rparr>])])
       = [\<lparr>rownum = 1, cols = [Some v1, None, None, Some v4]\<rparr>]"
proof (intro conjI allI impI)
  fix r i
  assume "r < length (ws_rows (foldl ws_store ws_init ds))
         \<and> i < length (ws_rows (foldl ws_store ws_init ds) ! r)
         \<and> (\<forall>v. (int r + 1, int i + 1, v) \<notin> set ds)"
  then show "ws_rows (foldl ws_store ws_init ds) ! r ! i = \<lparr>cv_value = None, cv_is_null = True\<rparr>"
    by (intro ws_undeclared_null) simp_all
next
  fix rn cn v
  assume a: "(rn, cn, v) \<in> set ds \<and> rn > 0 \<and> cn > 0"
  then show "nat rn \<le> length (ws_rows (foldl ws_store ws_init ds))"
    by (intro ws_declared_present(1) [of rn cn v]) simp_all
  from a show "nat cn \<le> length (ws_rows (foldl ws_store ws_init ds) ! nat (rn - 1))"
    by (intro ws_declared_present(2) [of rn cn v]) simp_all
next
  show "ws_rows (foldl ws_store ws_init [(1, 1, Some v1), (1, 4, Some v4)]) =
       [[\<lparr>cv_value = Some v1, cv_is_null = False\<rparr>, \<lparr>cv_value = None, cv_is_null = True\<rparr>,
         \<lparr>cv_value = None, cv_is_null = True\<rparr>, \<lparr>cv_value = Some v4, cv_is_null = False\<rparr>]]"
    by (rule ws_example)
next
  fix k i
  assume k: "k < length rws"
  then show "length (cols (parse_sheet ss (sheet_events rws) ! k)) = row_width (decl_kvs ss (snd (rws ! k)))"
    by (simp add: parsed_row length_grid_row)
  assume "i < length (cols (parse_sheet ss (sheet_events rws) ! k))
            \<and> list_all (\<lambda>d. decl_colidx d \<noteq> i) (snd (rws ! k))"
  with k show "cols (parse_sheet ss (sheet_events rws) ! k) ! i = None"
    by (intro parsed_undeclared_null) simp_all
next
  show "parse_sheet ss (sheet_events [(''1'',
        [\<lparr>cd_ref = Some ''A1'', cd_type = None, cd_body = ValueBody [v1]\<rparr>,
         \<lparr>cd_ref = Some ''D1'', cd_type = None, cd_body = ValueBody [v4]\<rparr>])])
       = [\<lparr>rownum = 1, cols = [Some v1, None, None, Some v4]\<rparr>]"
    by (rule parsed_example)
qed

theorem gaps_are_explicit_null_cells_witness:
  "ws_rows (foldl ws_store ws_init [(2, 3, Some ''x'')]) =
     [[], [\<lparr>cv_value = None, cv_is_null = True\<rparr>, \<lparr>cv_value = None, cv_is_null = True\<rparr>,
           \<lparr>cv_value = Some ''x'', cv_is_null = False\<rparr>]]
   \<and> ws_rows (foldl ws_store ws_init [(2, 3, Some ''x'')]) ! 1 ! 0 = \<lparr>cv_value = None, cv_is_null = True\<rparr>
   \<and> cols (parse_sheet [] (sheet_events [(''5'',
        [\<lparr>cd_ref = Some ''C5'', cd_type = None, cd_body = ValueBody [''x'']\<rparr>])]) ! 0) ! 1 = None"
proof -
  let ?ds = "[(2, 3, Some ''x'')] :: (int \<times> int \<times> string option) list"
  let ?rws = "[(''5'', [\<lparr>cd_ref = Some ''C5'', cd_type = None, cd_body = ValueBody [''x'']\<rparr>])]"
  note t = gaps_are_explicit_null_cells [of ?ds "''a''" "''d''" ?rws "[]"]
  have e: "ws_rows (foldl ws_store ws_init ?ds) =
     [[], [\<lparr>cv_value = None, cv_is_null = True\<rparr>, \<lparr>cv_value = None, cv_is_null = True\<rparr>,
           \<lparr>cv_value = Some ''x'', cv_is_null = False\<rparr>]]"
    by (simp add: ws_store_def ws_set_cell_def ws_get_row_def ws_init_def Let_def numeral_eq_Suc)
  from t have "1 < length (ws_rows (foldl ws_store ws_init ?ds))
         \<and> 0 < length (ws_rows (foldl ws_store ws_init ?ds) ! 1)
         \<and> (\<forall>v. (int 1 + 1, int 0 + 1, v) \<notin> set ?ds)
       \<longrightarrow> ws_rows (foldl ws_store ws_init ?ds) ! 1 ! 0 = \<lparr>cv_value = None, cv_is_null = True\<rparr>"
    by blast
  with e have a: "ws_rows (foldl ws_store ws_init ?ds) ! 1 ! 0 = \<lparr>cv_value = None, cv_is_null = True\<rparr>"
    by simp
  have c: "decl_colidx \<lparr>cd_ref = Some ''C5'', cd_type = None, cd_body = ValueBody [''x'']\<rparr> = 2"
    by code_simp
  have p: "parse_sheet [] (sheet_events ?rws) =
      [\<lparr>rownum = 5, cols = [None, None, Some ''x'']\<rparr>]"
    by code_simp
  from t have "0 < length ?rws \<longrightarrow>
         (1 < length (cols (parse_sheet [] (sheet_events ?rws) ! 0))
            \<and> list_all (\<lambda>d. decl_colidx d \<noteq> 1) (snd (?rws ! 0))
            \<longrightarrow> cols (parse_sheet [] (sheet_events ?rws) ! 0) ! 1 = None)"
    by blast
  with p c have b: "cols (parse_sheet [] (sheet_events ?rws) ! 0) ! 1 = None"
    by simp
  from e a b show ?thesis by simp
qed

subsection \<open>Cells declared more than once\<close>

lemma decl_kvs_split:
  "decl_kvs ss (xs @ d # ys) = decl_kvs ss xs @ (decl_colidx d, Some (decl_val ss d)) # decl_kvs ss ys"
  by (simp add: decl_kvs_def)

lemma parsed_last_wins:
  assumes "k < length rws" and "snd (rws ! k) = xs @ d # ys"
    and "list_all (\<lambda>e. decl_colidx e \<noteq> decl_colidx d) ys"
  shows "decl_colidx d < length (cols (parse_sheet ss (sheet_events rws) ! k))"
    and "cols (parse_sheet ss (sheet_events rws) ! k) ! decl_colidx d = Some (decl_val ss d)"
proof -
  note p = parsed_row [OF assms(1), of ss]
  let ?kvs = "decl_kvs ss (snd (rws ! k))"
  have s: "?kvs = decl_kvs ss xs @ (decl_colidx d, Some (decl_val ss d)) # decl_kvs ss ys"
    by (simp add: assms(2) decl_kvs_split)
  then have "(decl_colidx d, Some (decl_val ss d)) \<in> set ?kvs" by simp
  from key_less_row_width [OF this] have w: "decl_colidx d < row_width ?kvs" .
  then show "decl_colidx d < length (cols (parse_sheet ss (sheet_events rws) ! k))"
    by (simp add: p length_grid_row)
  from assms(3) have "decl_colidx d \<notin> fst ` set (decl_kvs ss ys)"
    by (auto simp: decl_kvs_def list_all_iff)
  from map_of_rev_last [OF this, of "decl_kvs ss xs" "Some (decl_val ss d)"] s
  have "map_of (rev ?kvs) (decl_colidx d) = Some (Some (decl_val ss d))" by simp
  with grid_row_nth [OF w, of None] p
  show "cols (parse_sheet ss (sheet_events rws) ! k) ! decl_colidx d = Some (decl_val ss d)"
    by simp
qed

lemma row_decls_split:
  "rn > 0 \<Longrightarrow> cn > 0 \<Longrightarrow>
   row_decls (xs @ (rn, cn, v) # ys) (nat (rn - 1)) =
   row_decls xs (nat (rn - 1)) @ (nat (cn - 1), \<lparr>cv_value = v, cv_is_null = (v = None)\<rparr>)
     # row_decls ys (nat (rn - 1))"
  by (simp add: row_decls_def)

lemma ws_last_wins:
  assumes "rn > 0" "cn > 0"
    and "list_all (\<lambda>e. \<not> (fst e = rn \<and> fst (snd e) = cn)) ys"
  shows "ws_rows (foldl ws_store ws_init (xs @ (rn, cn, v) # ys)) ! nat (rn - 1) ! nat (cn - 1)
         = \<lparr>cv_value = v, cv_is_null = (v = None)\<rparr>"
proof -
  let ?ds = "xs @ (rn, cn, v) # ys"
  let ?r = "nat (rn - 1)" and ?c = "nat (cn - 1)"
  have m: "(rn, cn, v) \<in> set ?ds" by simp
  from ws_declared_present(1) [OF m assms(1,2)] assms(1)
  have r: "?r < length (ws_rows (foldl ws_store ws_init ?ds))" by simp
  note g = ws_row_is_grid [OF r]
  from key_less_row_width [OF row_decls_mem [OF m assms(1,2)]]
  have w: "?c < row_width (row_decls ?ds ?r)" .
  have "?c \<notin> fst ` set (row_decls ys ?r)"
  proof
    assume "?c \<in> fst ` set (row_decls ys ?r)"
    then obtain x where "(?c, x) \<in> set (row_decls ys ?r)" by auto
    from row_decls_key [OF this] obtain v' where "(int ?r + 1, int ?c + 1, v') \<in> set ys" by blast
    with assms(1,2) have "(rn, cn, v') \<in> set ys" by simp
    with assms(3) show False by (auto simp: list_all_iff)
  qed
  from map_of_rev_last [OF this, of "row_decls xs ?r" "\<lparr>cv_value = v, cv_is_null = (v = None)\<rparr>"]
    row_decls_split [OF assms(1,2), of xs v ys]
  have "map_of (rev (row_decls ?ds ?r)) ?c = Some \<lparr>cv_value = v, cv_is_null = (v = None)\<rparr>"
    by simp
  with grid_row_nth [OF w, of null_cell] g show ?thesis by simp
qed

text \<open>
  C10. Duplicate cell declarations resolve last-write-wins.
  In the parser of unnamed/part_001: when a cell \<open>d\<close> of row \<open>k\<close> is the last cell of
  that row declared for its column (no later cell \<open>ys\<close> of the row has its index), the
  emitted row holds at that column the value of \<open>d\<close>, whatever earlier cells \<open>xs\<close> of the
  row were declared there.
  In the worksheet of opus/xlsximport.c: when \<open>(rn, cn, v)\<close> is the last declaration for
  position \<open>(rn, cn)\<close>, the cell at that position holds \<open>v\<close>.
\<close>

theorem duplicate_cells_last_write_wins:
  "(k < length rws \<and> snd (rws ! k) = xs @ d # ys
      \<and> list_all (\<lambda>e. decl_colidx e \<noteq> decl_colidx d) ys
     \<longrightarrow> decl_colidx d < length (cols (parse_sheet ss (sheet_events rws) ! k))
       \<and> cols (parse_sheet ss (sheet_events rws) ! k) ! decl_colidx d = Some (decl_val ss d))
   \<and> (rn > 0 \<and> cn > 0 \<and> list_all (\<lambda>e. \<not> (fst e = rn \<and> fst (snd e) = cn)) ws_ys
     \<longrightarrow> ws_rows (foldl ws_store ws_init (ws_xs @ (rn, cn, v) # ws_ys)) ! nat (rn - 1) ! nat (cn - 1)
         = \<lparr>cv_value = v, cv_is_null = (v = None)\<rparr>)"
proof (intro conjI impI)
  assume a: "k < length rws \<and> snd (rws ! k) = xs @ d # ys
      \<and> list_all (\<lambda>e. decl_colidx e \<noteq> decl_colidx d) ys"
  then show "decl_colidx d < length (cols (parse_sheet ss (sheet_events rws) ! k))"
    by (intro parsed_last_wins(1) [of k rws xs d ys]) simp_all
  from a show "cols (parse_sheet ss (sheet_events rws) ! k) ! decl_colidx d = Some (decl_val ss d)"
    by (intro parsed_last_wins(2) [of k rws xs d ys]) simp_all
next
  assume "rn > 0 \<and> cn > 0 \<and> list_all (\<lambda>e. \<not> (fst e = rn \<and> fst (snd e) = cn)) ws_ys"
  then show "ws_rows (foldl ws_store ws_init (ws_xs @ (rn, cn, v) # ws_ys)) ! nat (rn - 1) ! nat (cn - 1)
         = \<lparr>cv_value = v, cv_is_null = (v = None)\<rparr>"
    by (intro ws_last_wins) simp_all
qed

theorem duplicate_cells_last_write_wins_witness:
  "parse_sheet [] (sheet_events [(''1'',
      [\<lparr>cd_ref = Some ''B1'', cd_type = None, cd_body = ValueBody [''old'']\<rparr>,
       \<lparr>cd_ref = Some ''B1'', cd_type = None, cd_body = ValueBody [''new'']\<rparr>,
       \<lparr>cd_ref = Some ''A1'', cd_type = None, cd_body = ValueBody [''a'']\<rparr>])])
     = [\<lparr>rownum = 1, cols = [Some ''a'', Some ''new'']\<rparr>]
   \<and> cols (parse_sheet [] (sheet_events [(''1'',
      [\<lparr>cd_ref = Some ''B1'', cd_type = None, cd_body = ValueBody [''old'']\<rparr>,
       \<lparr>cd_ref = Some ''B1'', cd_type = None, cd_body = ValueBody [''new'']\<rparr>,
       \<lparr>cd_ref = Some ''A1'', cd_type = None, cd_body = ValueBody [''a'']\<rparr>])]) ! 0) ! 1
     = Some ''new''
   \<and> ws_rows (foldl ws_store ws_init [(1, 2, Some ''old''), (1, 2, Some ''new''), (1, 1, None)]) ! 0 ! 1
     = \<lparr>cv_value = Some ''new'', cv_is_null = False\<rparr>"
proof -
  let ?old = "\<lparr>cd_ref = Some ''B1'', cd_type = None, cd_body = ValueBody [''old'']\<rparr>"
  let ?new = "\<lparr>cd_ref = Some ''B1'', cd_type = None, cd_body = ValueBody [''new'']\<rparr>"
  let ?a = "\<lparr>cd_ref = Some ''A1'', cd_type = None, cd_body = ValueBody [''a'']\<rparr>"
  note t = duplicate_cells_last_write_wins
    [of 0 "[(''1'', [?old, ?new, ?a])]" "[?old]" ?new "[?a]" "[]" 1 2
        "[(1, 1, None)]" "[(1, 2, Some ''old'')]" "Some ''new''"]
  have c: "decl_colidx ?new = 1" "decl_colidx ?a = 0" "decl_val [] ?new = ''new''"
    by code_simp+
  have p: "parse_sheet [] (sheet_events [(''1'', [?old, ?new, ?a])])
     = [\<lparr>rownum = 1, cols = [Some ''a'', Some ''new'']\<rparr>]"
    by code_simp
  from t c have "cols (parse_sheet [] (sheet_events [(''1'', [?old, ?new, ?a])]) ! 0) ! 1 = Some ''new''"
    by simp
  moreover from t have "ws_rows (foldl ws_store ws_init [(1, 2, Some ''old''), (1, 2, Some ''new''), (1, 1, None)]) ! 0 ! 1
     = \<lparr>cv_value = Some ''new'', cv_is_null = False\<rparr>"
    by simp
  ultimately show ?thesis using p by simp
qed

section \<open>The import: selection and failures\<close>

















section \<open>Export: the sheet names\<close>

subsection \<open>What the naming loop returns, when it returns\<close>

lemma unique_loop_fresh:
  assumes "unique_loop existing tmp suffix = Some r"
  shows "r \<notin> set existing"
proof (rule unique_loop.raw_induct [where P = "\<lambda>e t s y. y \<notin> set e", OF _ assms])
  fix ul e t s y
  assume ih: "\<And>a b c z. ul a b c = Some z \<Longrightarrow> z \<notin> set a"
    and eq: "(if t \<in> set e then ul e (take 31 (t @ '' ('' @ dec_int s @ '')'')) (int32_wrap (s + 1))
             else Some t) = Some y"
  show "y \<notin> set e"
  proof (cases "t \<in> set e")
    case True
    with eq have "ul e (take 31 (t @ '' ('' @ dec_int s @ '')'')) (int32_wrap (s + 1)) = Some y"
      by simp
    then show ?thesis by (rule ih)
  next
    case False
    with eq show ?thesis by simp
  qed
qed

lemma unique_loop_length:
  assumes "unique_loop existing tmp suffix = Some r" and "length tmp \<le> 31"
  shows "length r \<le> 31"
proof -
  have "length tmp \<le> 31 \<longrightarrow> length r \<le> 31"
  proof (rule unique_loop.raw_induct
      [where P = "\<lambda>e t s y. length t \<le> 31 \<longrightarrow> length y \<le> 31", OF _ assms(1)])
    fix ul e t s y
    assume ih: "\<And>a b c z. ul a b c = Some z \<Longrightarrow> length b \<le> 31 \<longrightarrow> length z \<le> 31"
      and eq: "(if t \<in> set e then ul e (take 31 (t @ '' ('' @ dec_int s @ '')'')) (int32_wrap (s + 1))
               else Some t) = Some y"
    show "length t \<le> 31 \<longrightarrow> length y \<le> 31"
    proof (cases "t \<in> set e")
      case True
      with eq have "ul e (take 31 (t @ '' ('' @ dec_int s @ '')'')) (int32_wrap (s + 1)) = Some y"
        by simp
      from ih [OF this] show ?thesis by simp
    next
      case False
      with eq show ?thesis by simp
    qed
  qed
  with assms(2) show ?thesis by simp
qed

lemma dec_nat_digits: "list_all isdigit_c (dec_nat n)"
proof (induction n rule: dec_nat.induct)
  case (1 n)
  have d: "isdigit_c (char_of (48 + k))" if "k < 10" for k :: nat
    using that by (simp add: isdigit_c_def)
  show ?case
  proof (cases "n < 10")
    case True
    with d [of n] show ?thesis by (subst dec_nat.simps) simp
  next
    case False
    with 1 d [of "n mod 10"] show ?thesis by (subst dec_nat.simps) simp
  qed
qed

lemma digit_allowed: "isdigit_c c \<Longrightarrow> \<not> forbidden_char c"
  by (auto simp: isdigit_c_def forbidden_char_def)

lemma dec_int_allowed: "list_all (\<lambda>c. \<not> forbidden_char c) (dec_int i)"
proof -
  have "list_all (\<lambda>c. \<not> forbidden_char c) (dec_nat n)" for n
    using dec_nat_digits [of n] by (auto simp: list_all_iff digit_allowed)
  moreover have "\<not> forbidden_char (CHR ''-'')" by (simp add: forbidden_char_def)
  ultimately show ?thesis by (simp add: dec_int_def)
qed

lemma suffixed_allowed:
  assumes "list_all (\<lambda>c. \<not> forbidden_char c) t"
  shows "list_all (\<lambda>c. \<not> forbidden_char c) (take 31 (t @ '' ('' @ dec_int s @ '')''))"
proof -
  have "list_all (\<lambda>c. \<not> forbidden_char c) (t @ '' ('' @ dec_int s @ '')'')"
    using assms dec_int_allowed [of s] by (simp add: forbidden_char_def)
  then show ?thesis
    using set_take_subset [of 31 "t @ '' ('' @ dec_int s @ '')''"] unfolding list_all_iff by blast
qed

lemma unique_loop_allowed:
  assumes "unique_loop existing tmp suffix = Some r"
    and "list_all (\<lambda>c. \<not> forbidden_char c) tmp"
  shows "list_all (\<lambda>c. \<not> forbidden_char c) r"
proof -
  let ?ok = "list_all (\<lambda>c. \<not> forbidden_char c)"
  have "?ok tmp \<longrightarrow> ?ok r"
  proof (rule unique_loop.raw_induct [where P = "\<lambda>e t s y. ?ok t \<longrightarrow> ?ok y", OF _ assms(1)])
    fix ul e t s y
    assume ih: "\<And>a b c z. ul a b c = Some z \<Longrightarrow> ?ok b \<longrightarrow> ?ok z"
      and eq: "(if t \<in> set e then ul e (take 31 (t @ '' ('' @ dec_int s @ '')'')) (int32_wrap (s + 1))
               else Some t) = Some y"
    show "?ok t \<longrightarrow> ?ok y"
    proof (cases "t \<in> set e")
      case True
      with eq have "ul e (take 31 (t @ '' ('' @ dec_int s @ '')'')) (int32_wrap (s + 1)) = Some y"
        by simp
      from ih [OF this] suffixed_allowed [of t s] show ?thesis by blast
    next
      case False
      with eq show ?thesis by simp
    qed
  qed
  with assms(2) show ?thesis by simp
qed

lemma strip_quotes_subset: "set (strip_quotes t) \<subseteq> set t"
  by (cases t) (auto simp: strip_quotes_def Let_def dest: in_set_butlastD)

lemma sheet_name_base_props:
  "length (sheet_name_base name idx) \<le> 31"
  "list_all (\<lambda>c. \<not> forbidden_char c) (sheet_name_base name idx)"
  "sheet_name_base name idx \<noteq> []"
proof -
  let ?n = "case name of None \<Rightarrow> [] | Some n \<Rightarrow> n"
  let ?t = "strip_quotes (filter (\<lambda>c. \<not> forbidden_char c) (trim_whitespace ?n))"
  let ?t1 = "if ?t = [] then ''Sheet'' @ dec_int (int32_wrap (idx + 1)) else ?t"
  have b: "sheet_name_base name idx = take 31 ?t1" by (simp add: sheet_name_base_def Let_def)
  show "length (sheet_name_base name idx) \<le> 31" by (simp add: b)
  have "list_all (\<lambda>c. \<not> forbidden_char c) ?t"
    using strip_quotes_subset [of "filter (\<lambda>c. \<not> forbidden_char c) (trim_whitespace ?n)"]
    by (auto simp: list_all_iff)
  moreover have "list_all (\<lambda>c. \<not> forbidden_char c) (''Sheet'' @ dec_int (int32_wrap (idx + 1)))"
    using dec_int_allowed [of "int32_wrap (idx + 1)"] by (simp add: forbidden_char_def)
  ultimately have "list_all (\<lambda>c. \<not> forbidden_char c) ?t1" by simp
  then show "list_all (\<lambda>c. \<not> forbidden_char c) (sheet_name_base name idx)"
    using set_take_subset [of 31 ?t1] unfolding b list_all_iff by blast
  have "?t1 \<noteq> []" by simp
  then show "sheet_name_base name idx \<noteq> []" unfolding b by (cases ?t1) simp_all
qed

text \<open>
  A name that \<open>sanitize_sheet_name\<close> returns is none of the names given out before, has
  at most 31 bytes and none of the forbidden characters.
\<close>

lemma sanitize_sheet_name_returns:
  assumes "sanitize_sheet_name name idx existing = Some r"
  shows "r \<notin> set existing" and "length r \<le> 31" and "list_all (\<lambda>c. \<not> forbidden_char c) r"
proof -
  from assms have u: "unique_loop existing (sheet_name_base name idx) 1 = Some r"
    by (simp add: sanitize_sheet_name_def)
  from unique_loop_fresh [OF u] show "r \<notin> set existing" .
  from unique_loop_length [OF u sheet_name_base_props(1)] show "length r \<le> 31" .
  from unique_loop_allowed [OF u sheet_name_base_props(2)]
  show "list_all (\<lambda>c. \<not> forbidden_char c) r" .
qed

lemma sanitize_names_distinct:
  "sanitize_names raws i acc = Some res \<Longrightarrow> distinct acc \<Longrightarrow>
   distinct res \<and> length res = length acc + length raws"
proof (induction raws arbitrary: i acc)
  case Nil
  then show ?case by simp
next
  case (Cons raw raws)
  from Cons.prems(1) obtain u where u: "sanitize_sheet_name (Some raw) (int i) acc = Some u"
    and r: "sanitize_names raws (Suc i) (acc @ [u]) = Some res"
    by (auto split: option.splits)
  from sanitize_sheet_name_returns(1) [OF u] Cons.prems(2) have d: "distinct (acc @ [u])"
    by simp
  from Cons.IH [OF r d] show ?case by simp
qed

lemma sanitize_sheet_name_examples:
  "sanitize_sheet_name (Some ''Sales/Q1:2024[final]'') 0 [] = Some ''SalesQ12024final''"
  "sanitize_names [''Data'', ''Data''] 0 [] = Some [''Data'', ''Data (1)'']"
  "sanitize_sheet_name (Some ''  '') 4 [] = Some ''Sheet5''"
  "sanitize_sheet_name None 0 [''Sheet1''] = Some ''Sheet1 (1)''"
  by code_simp+

subsection \<open>When the naming loop does not return\<close>

text \<open>
  A name of 31 bytes that is already taken is never left: the suffix is cut off again
  by the bound, so the next candidate is the same name.
\<close>

lemma unique_loop_full_name:
  assumes "unique_loop existing tmp suffix = Some r"
  shows "\<not> (length tmp = 31 \<and> tmp \<in> set existing)"
proof (rule unique_loop.raw_induct
    [where P = "\<lambda>e t s y. \<not> (length t = 31 \<and> t \<in> set e)", OF _ assms])
  fix ul e t s y
  assume ih: "\<And>a b c z. ul a b c = Some z \<Longrightarrow> \<not> (length b = 31 \<and> b \<in> set a)"
    and eq: "(if t \<in> set e then ul e (take 31 (t @ '' ('' @ dec_int s @ '')'')) (int32_wrap (s + 1))
             else Some t) = Some y"
  show "\<not> (length t = 31 \<and> t \<in> set e)"
  proof
    assume a: "length t = 31 \<and> t \<in> set e"
    then have k: "take 31 (t @ '' ('' @ dec_int s @ '')'') = t" by simp
    from a eq have "ul e (take 31 (t @ '' ('' @ dec_int s @ '')'')) (int32_wrap (s + 1)) = Some y"
      by simp
    then have "ul e t (int32_wrap (s + 1)) = Some y" by (simp only: k)
    from ih [OF this] a show False by simp
  qed
qed

lemma unique_loop_None:
  "length tmp = 31 \<Longrightarrow> tmp \<in> set existing \<Longrightarrow> unique_loop existing tmp suffix = None"
  using unique_loop_full_name [of existing tmp suffix]
  by (cases "unique_loop existing tmp suffix") auto

lemma sheet_name_base_name31: "sheet_name_base (Some name31) idx = name31"
  by code_simp

lemma length_name31: "length name31 = 31"
  by (simp add: name31_def)

text \<open>
  C7. The sheet name derived by \<open>sanitize_sheet_name\<close> (copilot/xlsxexport.c) can begin
  with an apostrophe, and the derivation need not end. The function removes one
  apostrophe at the front and one at the end, once: for the table name \<open>''a\<close> (two
  apostrophes and the letter a), first table, no name given out yet, the sheet name is
  \<open>'a\<close>. And for a table whose name has 31 bytes, equal to a sheet name given out before,
  the loop that looks for a free name proposes the same 31 bytes again after every cut
  and never returns.
\<close>

theorem sheet_name_keeps_leading_apostrophe:
  "sanitize_sheet_name (Some [CHR 0x27, CHR 0x27, CHR ''a'']) 0 [] = Some [CHR 0x27, CHR ''a'']
   \<and> sanitize_sheet_name (Some name31) 1 [name31] = None"
proof
  show "sanitize_sheet_name (Some [CHR 0x27, CHR 0x27, CHR ''a'']) 0 [] = Some [CHR 0x27, CHR ''a'']"
    by code_simp
  show "sanitize_sheet_name (Some name31) 1 [name31] = None"
    by (simp add: sanitize_sheet_name_def sheet_name_base_name31 unique_loop_None length_name31)
qed

section \<open>Export: the cell-size limit\<close>

lemma c_string_long_text: "c_string (long_text n) = long_text n"
  by (simp add: c_string_def long_text_def)

lemma xml_escape_long_text: "xml_escape (long_text n) = long_text n"
proof -
  have "concat (map xml_escape_char (replicate n (CHR ''a''))) = replicate n (CHR ''a'')"
    by (induction n) (simp_all add: xml_escape_char_def)
  then show ?thesis by (simp add: xml_escape_def c_string_long_text) (simp add: long_text_def)
qed

lemma take_long_text: "take k (long_text n) = long_text (min k n)"
  by (simp add: long_text_def)

lemma length_long_text: "length (long_text n) = n"
  by (simp add: long_text_def)

lemma col_to_letter_0: "col_to_letter 0 = ''A''"
  by code_simp

lemma dec_int_small: "dec_int 1 = ''1''" "dec_int 2 = ''2''" "dec_int 3 = ''3''"
  by code_simp+

text \<open>
  A data cell holding a text longer than the limit: its first 32767 bytes are escaped
  and written, and the cut is counted.
\<close>

lemma gen_cell_text_cut:
  assumes "length text > 32767"
  shows "gen_cell table_name row_num col (SqlText text) w =
           (''<c r=\"'' @ col_to_letter (int col) @ dec_int row_num @ ''\" t=\"inlineStr\"><is><t>'' @
              xml_escape (take 32767 text) @ ''</t></is></c>'',
            note_truncated w table_name row_num col)"
  using assms by (simp add: gen_cell_def EXCEL_MAX_CELL_SIZE_def)

lemma gen_cell_text_whole:
  assumes "length text \<le> 32767"
  shows "gen_cell table_name row_num col (SqlText text) w =
           (''<c r=\"'' @ col_to_letter (int col) @ dec_int row_num @ ''\" t=\"inlineStr\"><is><t>'' @
              xml_escape text @ ''</t></is></c>'', w)"
  using assms by (simp add: gen_cell_def EXCEL_MAX_CELL_SIZE_def)

lemma note_truncated_count:
  assumes "0 \<le> cells_truncated w" and "cells_truncated w < 2147483647"
  shows "cells_truncated (note_truncated w table_name row_num col) = cells_truncated w + 1"
  using assms by (simp add: note_truncated_def Let_def int32_wrap_id)

lemma note_truncated_first:
  "cells_truncated w = 0 \<Longrightarrow>
   note_truncated w table_name row_num col =
     w\<lparr>cells_truncated := 1, first_truncated_row := row_num,
        first_truncated_col := int col + 1, first_truncated_table := Some table_name\<rparr>"
  by (simp add: note_truncated_def Let_def int32_wrap_id)

lemma note_truncated_later:
  assumes "0 < cells_truncated w" and "cells_truncated w < 2147483647"
  shows "note_truncated w table_name row_num col = w\<lparr>cells_truncated := cells_truncated w + 1\<rparr>"
  using assms by (simp add: note_truncated_def Let_def int32_wrap_id)

text \<open>
  The example of 40000 letters in a data cell: 32767 letters are written, one cell is
  counted, at row 2, column 1 of the table, and the export returns the file name with
  the warning.
\<close>

lemma data_cell_example:
  fixes db :: "string \<Rightarrow> table_scan option"
  defines "db \<equiv> \<lambda>t. Some \<lparr>col_names = [''c''], scan_rows = [[SqlText (long_text 40000)]], scan_done = True\<rparr>"
  defines "w0 \<equiv> \<lparr>cells_truncated = 0, first_truncated_row = 0,
                  first_truncated_col = 0, first_truncated_table = None\<rparr>"
  defines "w1 \<equiv> \<lparr>cells_truncated = 1, first_truncated_row = 2,
                  first_truncated_col = 1, first_truncated_table = Some ''t''\<rparr>"
  shows "gen_worksheet db ''t'' w0 =
           (Inr (worksheet_open @
                 ''<row r=\"1\"><c r=\"A1\" t=\"inlineStr\" s=\"1\"><is><t>c</t></is></c></row>'' @
                 ''<row r=\"2\"><c r=\"A2\" t=\"inlineStr\"><is><t>'' @ long_text 32767 @
                 ''</t></is></c></row></sheetData><autoFilter ref=\"A1:A2\"/></worksheet>''), w1)"
    and "xlsx_export_func db True [SqlText ''out.xlsx'', SqlText ''t''] = Inr (warning_text ''out.xlsx'' w1)"
proof -
  have c: "gen_cell ''t'' 2 0 (SqlText (long_text 40000)) w0 =
             (''<c r=\"A2\" t=\"inlineStr\"><is><t>'' @ long_text 32767 @ ''</t></is></c>'', w1)"
    by (simp add: gen_cell_text_cut length_long_text take_long_text xml_escape_long_text
        col_to_letter_0 dec_int_small note_truncated_first w0_def w1_def)
  have e: "xml_escape ''c'' = ''c''" by code_simp
  show g: "gen_worksheet db ''t'' w0 =
           (Inr (worksheet_open @
                 ''<row r=\"1\"><c r=\"A1\" t=\"inlineStr\" s=\"1\"><is><t>c</t></is></c></row>'' @
                 ''<row r=\"2\"><c r=\"A2\" t=\"inlineStr\"><is><t>'' @ long_text 32767 @
                 ''</t></is></c></row></sheetData><autoFilter ref=\"A1:A2\"/></worksheet>''), w1)"
    by (simp add: gen_worksheet_def db_def Let_def c e col_to_letter_0 dec_int_small)
  have v: "value_text (SqlText ''out.xlsx'') = Some ''out.xlsx''" "value_text (SqlText ''t'') = Some ''t''"
    by code_simp+
  show "xlsx_export_func db True [SqlText ''out.xlsx'', SqlText ''t''] = Inr (warning_text ''out.xlsx'' w1)"
    using g by (simp add: xlsx_export_func_def v w0_def w1_def)
qed

text \<open>
  C3. A column name longer than the limit is written whole, and nothing is reported.
  \<open>gen_worksheet\<close> (the exporter in opus/xlsximport.c) cuts and counts the texts of the
  data rows only; the header row is written from \<open>xml_escape\<close> of each column name. For
  a table \<open>t\<close> with one column, named by 32768 letters \<open>a\<close>, and no rows, the worksheet
  holds the 32768 letters, no cell is counted as cut, and the export returns the bare
  file name, without a warning.
\<close>

theorem header_over_the_limit_is_not_cut:
  "gen_worksheet
     (\<lambda>t. Some \<lparr>col_names = [long_text 32768], scan_rows = [], scan_done = True\<rparr>) ''t''
     \<lparr>cells_truncated = 0, first_truncated_row = 0,
      first_truncated_col = 0, first_truncated_table = None\<rparr> =
     (Inr (worksheet_open @
           ''<row r=\"1\"><c r=\"A1\" t=\"inlineStr\" s=\"1\"><is><t>'' @ long_text 32768 @
           ''</t></is></c></row></sheetData><autoFilter ref=\"A1:A1\"/></worksheet>''),
      \<lparr>cells_truncated = 0, first_truncated_row = 0,
       first_truncated_col = 0, first_truncated_table = None\<rparr>)
   \<and> length (long_text 32768) = 32768
   \<and> xlsx_export_func
       (\<lambda>t. Some \<lparr>col_names = [long_text 32768], scan_rows = [], scan_done = True\<rparr>) True
       [SqlText ''out.xlsx'', SqlText ''t''] = Inr ''out.xlsx''"
proof -
  let ?db = "\<lambda>t :: string. Some \<lparr>col_names = [long_text 32768], scan_rows = [], scan_done = True\<rparr>"
  let ?w0 = "\<lparr>cells_truncated = 0, first_truncated_row = 0,
              first_truncated_col = 0, first_truncated_table = None\<rparr>"
  have g: "gen_worksheet ?db ''t'' ?w0 =
     (Inr (worksheet_open @
           ''<row r=\"1\"><c r=\"A1\" t=\"inlineStr\" s=\"1\"><is><t>'' @ long_text 32768 @
           ''</t></is></c></row></sheetData><autoFilter ref=\"A1:A1\"/></worksheet>''), ?w0)"
    by (simp add: gen_worksheet_def Let_def xml_escape_long_text col_to_letter_0 dec_int_small)
  have v: "value_text (SqlText ''out.xlsx'') = Some ''out.xlsx''" "value_text (SqlText ''t'') = Some ''t''"
    by code_simp+
  have x: "xlsx_export_func ?db True [SqlText ''out.xlsx'', SqlText ''t''] = Inr ''out.xlsx''"
    using g by (simp add: xlsx_export_func_def v)
  from g x show ?thesis by (simp add: length_long_text)
qed

section \<open>Import: a shared-string index that is not one of the pool\<close>

lemma sheet_end_shared_out_of_range:
  assumes "cur_cell_type ctx = CHR ''s'' # ty"
    and "cur_text ctx = [] \<or>
         \<not> (0 \<le> atoi (cur_text ctx) \<and> nat (atoi (cur_text ctx)) < length (shared ctx))"
  shows "cell_val ctx = []
    \<and> rowbuf (sheet_end ctx ''c'') ! cell_colidx ctx = Some []
    \<and> emitted (sheet_end ctx ''c'') = emitted ctx
    \<and> emitted (sheet_end (sheet_end ctx ''c'') ''row'') = emitted ctx @ [last (emitted (sheet_end (sheet_end ctx ''c'') ''row''))]
    \<and> cell_colidx ctx < length (cols (last (emitted (sheet_end (sheet_end ctx ''c'') ''row''))))
    \<and> cols (last (emitted (sheet_end (sheet_end ctx ''c'') ''row''))) ! cell_colidx ctx = Some []"
proof -
  from assms have v: "cell_val ctx = []" by (auto simp: cell_val_def Let_def)
  let ?e = "sheet_end ctx ''c''"
  have s: "rowbuf ?e ! cell_colidx ctx = Some []" using sheet_end_c_stored [of ctx] v by simp
  have e: "emitted ?e = emitted ctx" by (rule sheet_end_c_fields)
  have m: "cell_colidx ctx < maxcol ?e" by (simp add: sheet_end_c_fields)
  have b: "cell_colidx ctx < length (rowbuf ?e)" by (rule sheet_end_c_in_bounds)
  have r: "emitted (sheet_end ?e ''row'') =
      emitted ctx @ [\<lparr>rownum = current_row ?e, cols = take (maxcol ?e) (rowbuf ?e)\<rparr>]"
    by (simp add: sheet_end_row_emitted e)
  from r m b s v e show ?thesis by simp
qed

text \<open>
  In the worksheet parser of opus/xlsximport.c a shared-string index outside the pool
  gives the \<open>NULL\<close> value: the cell is stored as a null cell, and parsing goes on.
\<close>

lemma ws_end_value_out_of_range:
  assumes "\<not> (0 \<le> atoi t \<and> atoi t < int (length pool))"
  shows "ws_end_value (CHR ''s'') (Some t) (Some pool) = None"
  using assms by (auto simp: ws_end_value_def Let_def)

lemma ws_store_null_cell:
  assumes "0 < r" "0 < c"
  shows "nat (r - 1) < length (ws_rows (ws_store ws (r, c, None)))"
    and "nat (c - 1) < length (ws_rows (ws_store ws (r, c, None)) ! nat (r - 1))"
    and "ws_rows (ws_store ws (r, c, None)) ! nat (r - 1) ! nat (c - 1) =
           \<lparr>cv_value = None, cv_is_null = True\<rparr>"
    and "length (ws_rows ws) \<le> length (ws_rows (ws_store ws (r, c, None)))"
proof -
  let ?ws = "ws_store ws (r, c, None)"
  from assms have s: "?ws = ws_set_cell ws r c None" by (simp add: ws_store_def)
  from ws_set_cell_row(3) [OF assms, of ws None] assms
  show l: "nat (r - 1) < length (ws_rows ?ws)" by (simp add: s)
  then have ro: "row_or_empty ?ws (nat (r - 1)) = ws_rows ?ws ! nat (r - 1)"
    by (simp add: row_or_empty_def)
  from ws_set_cell_row(1) [OF assms, of ws None "nat (r - 1)"]
  have p: "ws_rows ?ws ! nat (r - 1) =
      put_cell null_cell (row_or_empty ws (nat (r - 1)))
        (nat (c - 1), \<lparr>cv_value = None, cv_is_null = True\<rparr>)"
    using ro by (simp add: s)
  show "nat (c - 1) < length (ws_rows ?ws ! nat (r - 1))"
    by (simp add: p length_put_cell)
  show "ws_rows ?ws ! nat (r - 1) ! nat (c - 1) = \<lparr>cv_value = None, cv_is_null = True\<rparr>"
    by (simp add: p put_cell_nth)
  from ws_set_cell_row(2) [OF assms, of ws None]
  show "length (ws_rows ws) \<le> length (ws_rows ?ws)" by (simp add: s)
qed

text \<open>
  The claim C5 as it is worded speaks of every index that is not a valid index of the
  pool. The handlers read the index with \<open>atoi\<close> and test what \<open>atoi\<close> returns. For a
  pool of one string, \<open>zero\<close>, a shared-string cell whose text is \<open>abc\<close> is read as index
  0 and is stored as \<open>zero\<close>, not as the empty string; so is a cell whose text is
  \<open>4294967296\<close>, which is cut to 0. And where the index is outside the pool as \<open>atoi\<close>
  reads it (5, for a pool of two), \<open>ws_end_element\<close> of opus/xlsximport.c stores a null
  cell, not the empty string.
\<close>

theorem invalid_shared_string_index_is_not_always_empty_string:
  "parse_sheet [''zero'']
     (row_events ''1'' [\<lparr>cd_ref = Some ''A1'', cd_type = Some ''s'', cd_body = ValueBody [''abc'']\<rparr>])
     = [\<lparr>rownum = 1, cols = [Some ''zero'']\<rparr>]
   \<and> parse_sheet [''zero'']
     (row_events ''1'' [\<lparr>cd_ref = Some ''A1'', cd_type = Some ''s'', cd_body = ValueBody [''4294967296'']\<rparr>])
     = [\<lparr>rownum = 1, cols = [Some ''zero'']\<rparr>]
   \<and> ws_rows (ws_store ws_init (1, 1, ws_end_value (CHR ''s'') (Some ''5'') (Some [''a'', ''b''])))
     = [[\<lparr>cv_value = None, cv_is_null = True\<rparr>]]"
  by code_simp

text \<open>
  C5 (amended). A shared-string cell whose index, as \<open>atoi\<close> reads its text, is not one
  of the pool is recovered, and the sheet goes on.
  In \<open>sheet_end\<close> (unnamed/part_001): at the end of a \<open>c\<close> element whose type begins with
  \<open>s\<close> and whose text, read by \<open>atoi\<close>, is negative or not below the size of the pool (or
  whose text is empty), the value stored for the cell is the empty string; the rows
  emitted so far are kept; and when the row ends, the emitted row holds the empty string
  at the cell's column.
  In \<open>ws_end_element\<close> (opus/xlsximport.c): for a cell of type \<open>s\<close> whose text, read by
  \<open>atoi\<close>, is negative or not below the size of the pool, the value handed to
  \<open>ws_set_cell\<close> is \<open>NULL\<close>; the cell at its row and column is then a null cell, and no
  row of the worksheet is lost.
\<close>

theorem shared_string_index_out_of_range_is_recovered:
  "(cur_cell_type ctx = CHR ''s'' # ty
      \<and> (cur_text ctx = [] \<or>
         \<not> (0 \<le> atoi (cur_text ctx) \<and> nat (atoi (cur_text ctx)) < length (shared ctx)))
    \<longrightarrow> cell_val ctx = []
      \<and> rowbuf (sheet_end ctx ''c'') ! cell_colidx ctx = Some []
      \<and> emitted (sheet_end ctx ''c'') = emitted ctx
      \<and> emitted (sheet_end (sheet_end ctx ''c'') ''row'') =
          emitted ctx @ [last (emitted (sheet_end (sheet_end ctx ''c'') ''row''))]
      \<and> cell_colidx ctx < length (cols (last (emitted (sheet_end (sheet_end ctx ''c'') ''row''))))
      \<and> cols (last (emitted (sheet_end (sheet_end ctx ''c'') ''row''))) ! cell_colidx ctx = Some [])
   \<and> (\<not> (0 \<le> atoi t \<and> atoi t < int (length pool))
    \<longrightarrow> ws_end_value (CHR ''s'') (Some t) (Some pool) = None
      \<and> (0 < r \<and> 0 < c \<longrightarrow>
           nat (r - 1) < length (ws_rows (ws_store ws (r, c, ws_end_value (CHR ''s'') (Some t) (Some pool))))
           \<and> nat (c - 1) <
               length (ws_rows (ws_store ws (r, c, ws_end_value (CHR ''s'') (Some t) (Some pool))) ! nat (r - 1))
           \<and> ws_rows (ws_store ws (r, c, ws_end_value (CHR ''s'') (Some t) (Some pool)))
                ! nat (r - 1) ! nat (c - 1) = \<lparr>cv_value = None, cv_is_null = True\<rparr>
           \<and> length (ws_rows ws) \<le>
               length (ws_rows (ws_store ws (r, c, ws_end_value (CHR ''s'') (Some t) (Some pool))))))"
proof (intro conjI impI)
  assume a: "cur_cell_type ctx = CHR ''s'' # ty
      \<and> (cur_text ctx = [] \<or>
         \<not> (0 \<le> atoi (cur_text ctx) \<and> nat (atoi (cur_text ctx)) < length (shared ctx)))"
  then have a1: "cur_cell_type ctx = CHR ''s'' # ty"
    and a2: "cur_text ctx = [] \<or>
         \<not> (0 \<le> atoi (cur_text ctx) \<and> nat (atoi (cur_text ctx)) < length (shared ctx))"
    by simp_all
  note p = sheet_end_shared_out_of_range [OF a1 a2]
  from p show "cell_val ctx = []" by simp
  from p show "rowbuf (sheet_end ctx ''c'') ! cell_colidx ctx = Some []" by simp
  from p show "emitted (sheet_end ctx ''c'') = emitted ctx" by simp
  from p show "emitted (sheet_end (sheet_end ctx ''c'') ''row'') =
          emitted ctx @ [last (emitted (sheet_end (sheet_end ctx ''c'') ''row''))]" by simp
  from p show "cell_colidx ctx < length (cols (last (emitted (sheet_end (sheet_end ctx ''c'') ''row''))))"
    by simp
  from p show "cols (last (emitted (sheet_end (sheet_end ctx ''c'') ''row''))) ! cell_colidx ctx = Some []"
    by simp
next
  assume b: "\<not> (0 \<le> atoi t \<and> atoi t < int (length pool))"
  show n: "ws_end_value (CHR ''s'') (Some t) (Some pool) = None"
    by (rule ws_end_value_out_of_range [OF b])
  assume "0 < r \<and> 0 < c"
  then have r: "0 < r" and c: "0 < c" by simp_all
  note q = ws_store_null_cell [OF r c, of ws]
  show "nat (r - 1) < length (ws_rows (ws_store ws (r, c, ws_end_value (CHR ''s'') (Some t) (Some pool))))"
    unfolding n by (rule q(1))
  show "nat (c - 1) <
          length (ws_rows (ws_store ws (r, c, ws_end_value (CHR ''s'') (Some t) (Some pool))) ! nat (r - 1))"
    unfolding n by (rule q(2))
  show "ws_rows (ws_store ws (r, c, ws_end_value (CHR ''s'') (Some t) (Some pool)))
          ! nat (r - 1) ! nat (c - 1) = \<lparr>cv_value = None, cv_is_null = True\<rparr>"
    unfolding n by (rule q(3))
  show "length (ws_rows ws) \<le>
          length (ws_rows (ws_store ws (r, c, ws_end_value (CHR ''s'') (Some t) (Some pool))))"
    unfolding n by (rule q(4))
qed

theorem shared_string_index_out_of_range_is_recovered_witness:
  "cell_val ((sheet_parser_init [''zero''])\<lparr>cur_cell_type := ''s'', cur_text := ''1''\<rparr>) = []
   \<and> parse_sheet [''zero'']
        (row_events ''2''
           [\<lparr>cd_ref = Some ''A2'', cd_type = Some ''s'', cd_body = ValueBody [''1'']\<rparr>,
            \<lparr>cd_ref = Some ''B2'', cd_type = Some ''s'', cd_body = ValueBody [''0'']\<rparr>])
       = [\<lparr>rownum = 2, cols = [Some [], Some ''zero'']\<rparr>]
   \<and> ws_end_value (CHR ''s'') (Some ''5'') (Some [''a'', ''b'']) = None
   \<and> ws_rows (ws_store ws_init (1, 2, ws_end_value (CHR ''s'') (Some ''5'') (Some [''a'', ''b''])))
        ! 0 ! 1 = \<lparr>cv_value = None, cv_is_null = True\<rparr>"
proof -
  note t = shared_string_index_out_of_range_is_recovered
    [where ctx = "(sheet_parser_init [''zero''])\<lparr>cur_cell_type := ''s'', cur_text := ''1''\<rparr>"
       and ty = "[]" and t = "''5''" and pool = "[''a'', ''b'']" and r = 1 and c = 2 and ws = ws_init]
  have a: "atoi ''1'' = 1" "atoi ''5'' = 5" by code_simp+
  from t a have "cell_val ((sheet_parser_init [''zero''])\<lparr>cur_cell_type := ''s'', cur_text := ''1''\<rparr>) = []"
    by (simp add: sheet_parser_init_def)
  moreover have "parse_sheet [''zero'']
        (row_events ''2''
           [\<lparr>cd_ref = Some ''A2'', cd_type = Some ''s'', cd_body = ValueBody [''1'']\<rparr>,
            \<lparr>cd_ref = Some ''B2'', cd_type = Some ''s'', cd_body = ValueBody [''0'']\<rparr>])
       = [\<lparr>rownum = 2, cols = [Some [], Some ''zero'']\<rparr>]"
    by code_simp
  moreover from t a have "ws_end_value (CHR ''s'') (Some ''5'') (Some [''a'', ''b'']) = None"
    by simp
  moreover have "ws_rows (ws_store ws_init (1, 2, ws_end_value (CHR ''s'') (Some ''5'') (Some [''a'', ''b''])))
        ! 0 ! 1 = \<lparr>cv_value = None, cv_is_null = True\<rparr>"
  proof -
    from a have h: "\<not> (0 \<le> atoi ''5'' \<and> atoi ''5'' < int (length [''a'', ''b'']))" by simp
    from t h have "0 < (1::int) \<and> 0 < (2::int) \<longrightarrow>
        ws_rows (ws_store ws_init (1, 2, ws_end_value (CHR ''s'') (Some ''5'') (Some [''a'', ''b''])))
          ! nat (1 - 1) ! nat (2 - 1) = \<lparr>cv_value = None, cv_is_null = True\<rparr>"
      by blast
    then show ?thesis by simp
  qed
  ultimately show ?thesis by simp
qed

section \<open>Import: the selection in the third importer\<close>

text \<open>
  \<open>should_import\<close> matches an integer selector with the position of the sheet alone, and
  a text selector with its name, also when the text is a number.
\<close>

lemma should_import_examples:
  "should_import [SqlText ''f.xlsx''] 1 ''B'' = True"
  "should_import [SqlText ''f.xlsx'', SqlInteger 2] 1 ''B'' = True"
  "should_import [SqlText ''f.xlsx'', SqlInteger 5] 1 ''B'' = False"
  "should_import [SqlText ''f.xlsx'', SqlText ''2''] 1 ''B'' = False"
  "should_import [SqlText ''f.xlsx'', SqlText ''B''] 1 ''B'' = True"
  "should_import [SqlText ''f.xlsx'', SqlText ''b''] 1 ''B'' = False"
  by code_simp+

end
